theory Spec2Isabelle
  imports Complex_Main "HOL-Library.Multiset"
begin

section \<open>Strings as the code uses them\<close>

text \<open>
  A string is a list of characters, and a character is a code unit below 256: the Latin-1
  part of the source's strings, which holds every amount, address and identifier the code
  works on. A string with a code unit from 256 on is outside the model.
\<close>

definition is_digit :: "char \<Rightarrow> bool" where
  "is_digit c = (48 \<le> (of_char c :: int) \<and> (of_char c :: int) \<le> 57)"

definition digit_of :: "char \<Rightarrow> int" where
  "digit_of c = (of_char c :: int) - 48"

definition digit_char :: "int \<Rightarrow> char" where
  "digit_char n = char_of (48 + n)"

text \<open>
  White space and line terminators that the string-to-number conversions strip: tab, line
  feed, vertical tab, form feed, carriage return, space and the no-break space. The
  language's other white space characters are code units from 256 on.
\<close>

definition is_ws :: "char \<Rightarrow> bool" where
  "is_ws c = ((of_char c :: int) \<in> {9, 10, 11, 12, 13, 32, 160})"

definition trim :: "string \<Rightarrow> string" where
  "trim s = rev (dropWhile is_ws (rev (dropWhile is_ws s)))"

text \<open>\<^verbatim>\<open>/^\d+$/.test(s)\<close>: one or more decimal digits and nothing else.\<close>

definition all_digits :: "string \<Rightarrow> bool" where
  "all_digits s = (s \<noteq> [] \<and> list_all is_digit s)"

text \<open>\<^verbatim>\<open>s.split(c)\<close> for a one-character separator: never an empty array.\<close>

fun split_on :: "char \<Rightarrow> string \<Rightarrow> string list" where
  "split_on c [] = [[]]"
| "split_on c (x # xs) =
     (if x = c then [] # split_on c xs
      else (case split_on c xs of [] \<Rightarrow> [[x]] | p # ps \<Rightarrow> (x # p) # ps))"

text \<open>\<^verbatim>\<open>s.padEnd(n, '0')\<close> and \<^verbatim>\<open>s.padStart(n, '0')\<close>.\<close>

definition padEnd :: "string \<Rightarrow> int \<Rightarrow> string" where
  "padEnd s n = s @ replicate (nat n - length s) (CHR ''0'')"

definition padStart :: "string \<Rightarrow> int \<Rightarrow> string" where
  "padStart s n = replicate (nat n - length s) (CHR ''0'') @ s"

text \<open>
  \<^verbatim>\<open>s.slice(start, end)\<close>: a negative index counts from the end of the string,
  and both indices are clamped to the string.
\<close>

definition slice_index :: "string \<Rightarrow> int \<Rightarrow> nat" where
  "slice_index s i =
     (if i < 0 then nat (max (int (length s) + i) 0) else nat (min i (int (length s))))"

definition slice :: "string \<Rightarrow> int \<Rightarrow> int \<Rightarrow> string" where
  "slice s start end =
     (let from = slice_index s start; to = slice_index s end
      in take (to - from) (drop from s))"

definition slice_from :: "string \<Rightarrow> int \<Rightarrow> string" where
  "slice_from s start = drop (slice_index s start) s"

text \<open>\<^verbatim>\<open>s.replace(/^0+/, '')\<close> and \<^verbatim>\<open>s.replace(/0+$/, '')\<close>.\<close>

definition strip_leading_zeros :: "string \<Rightarrow> string" where
  "strip_leading_zeros s = dropWhile (\<lambda>c. c = CHR ''0'') s"

definition strip_trailing_zeros :: "string \<Rightarrow> string" where
  "strip_trailing_zeros s = rev (dropWhile (\<lambda>c. c = CHR ''0'') (rev s))"

text \<open>
  \<^verbatim>\<open>s.toLowerCase()\<close>: the capital letters are A to Z and, in the upper half of
  Latin-1, the code units 192 to 222 without the multiplication sign 215; each has its
  small letter 32 code units further on.
\<close>

definition lower_char :: "char \<Rightarrow> char" where
  "lower_char c =
     (let n = (of_char c :: int) in
      if (65 \<le> n \<and> n \<le> 90) \<or> (192 \<le> n \<and> n \<le> 222 \<and> n \<noteq> 215)
      then char_of (n + 32) else c)"

definition toLowerCase :: "string \<Rightarrow> string" where
  "toLowerCase s = map lower_char s"

section \<open>Arbitrary-precision integers\<close>

text \<open>
  \<^verbatim>\<open>BigInt(s)\<close> on a string: surrounding white space is dropped, the empty string is
  zero, a decimal literal may carry a sign, a literal with a \<^verbatim>\<open>0x\<close>, \<^verbatim>\<open>0o\<close> or
  \<^verbatim>\<open>0b\<close> prefix may not, and anything else is a SyntaxError (\<open>None\<close>).
\<close>

definition radix_digit :: "char \<Rightarrow> int option" where
  "radix_digit c =
     (let n = (of_char c :: int) in
      if 48 \<le> n \<and> n \<le> 57 then Some (n - 48)
      else if 97 \<le> n \<and> n \<le> 102 then Some (n - 87)
      else if 65 \<le> n \<and> n \<le> 70 then Some (n - 55)
      else None)"

definition valid_in_radix :: "int \<Rightarrow> char \<Rightarrow> bool" where
  "valid_in_radix b c = (case radix_digit c of None \<Rightarrow> False | Some v \<Rightarrow> v < b)"

definition radix_value :: "int \<Rightarrow> string \<Rightarrow> int" where
  "radix_value b s =
     foldl (\<lambda>acc c. acc * b + (case radix_digit c of None \<Rightarrow> 0 | Some v \<Rightarrow> v)) 0 s"

definition parse_radix :: "int \<Rightarrow> string \<Rightarrow> int option" where
  "parse_radix b s =
     (if s \<noteq> [] \<and> list_all (valid_in_radix b) s then Some (radix_value b s) else None)"

definition signed_decimal :: "string \<Rightarrow> int option" where
  "signed_decimal t =
     (case t of
        [] \<Rightarrow> None
      | c # r \<Rightarrow>
          if c = CHR ''+'' then parse_radix 10 r
          else if c = CHR ''-'' then map_option uminus (parse_radix 10 r)
          else parse_radix 10 t)"

definition prefixed_radix :: "string \<Rightarrow> int option" where
  "prefixed_radix t =
     (case t of
        c0 # c1 # r \<Rightarrow>
          if c0 \<noteq> CHR ''0'' then None
          else if c1 = CHR ''x'' \<or> c1 = CHR ''X'' then Some 16
          else if c1 = CHR ''o'' \<or> c1 = CHR ''O'' then Some 8
          else if c1 = CHR ''b'' \<or> c1 = CHR ''B'' then Some 2
          else None
      | _ \<Rightarrow> None)"

definition BigInt :: "string \<Rightarrow> int option" where
  "BigInt s =
     (let t = trim s in
      if t = [] then Some 0
      else (case prefixed_radix t of
              Some b \<Rightarrow> parse_radix b (drop 2 t)
            | None \<Rightarrow> signed_decimal t))"

text \<open>\<^verbatim>\<open>n.toString()\<close> of a BigInt: decimal digits, with a minus sign when negative.\<close>

function int_digits :: "int \<Rightarrow> string" where
  "int_digits n =
     (if n < 10 then [digit_char n] else int_digits (n div 10) @ [digit_char (n mod 10)])"
  by pat_completeness auto
termination
  by (relation "measure nat") auto

declare int_digits.simps [simp del]

definition BigInt_toString :: "int \<Rightarrow> string" where
  "BigInt_toString i = (if i < 0 then CHR ''-'' # int_digits (- i) else int_digits i)"

section \<open>Floating-point numbers\<close>

text \<open>
  A number of the source is an IEEE double: not-a-number, an infinity, or a rational that
  is a double. The sign of zero is not kept apart, as nothing below observes it.
  \<open>to_double\<close> rounds a rational to the nearest double, ties to the even mantissa.
\<close>

datatype js_number = NaN | PInf | NInf | Num rat

function bit_length :: "int \<Rightarrow> int" where
  "bit_length n = (if n \<le> 0 then 0 else 1 + bit_length (n div 2))"
  by pat_completeness auto
termination
  by (relation "measure nat") auto

declare bit_length.simps [simp del]

definition pow2 :: "int \<Rightarrow> rat" where
  "pow2 e = (if 0 \<le> e then of_int (2 ^ nat e) else 1 / of_int (2 ^ nat (- e)))"

definition pow10 :: "int \<Rightarrow> rat" where
  "pow10 e = (if 0 \<le> e then of_int (10 ^ nat e) else 1 / of_int (10 ^ nat (- e)))"

text \<open>The binary exponent of a positive rational \<open>a\<close>: \<open>2 ^ e \<le> a < 2 ^ (e + 1)\<close>.\<close>

definition ilog2 :: "rat \<Rightarrow> int" where
  "ilog2 a =
     (let n = fst (quotient_of a); d = snd (quotient_of a);
          e0 = bit_length n - bit_length d
      in if pow2 e0 \<le> a then e0 else e0 - 1)"

definition round_half_even :: "rat \<Rightarrow> int" where
  "round_half_even m =
     (let f = \<lfloor>m\<rfloor>; r = m - of_int f
      in if r < 1 / 2 then f else if 1 / 2 < r then f + 1 else if even f then f else f + 1)"

definition to_double :: "rat \<Rightarrow> js_number" where
  "to_double q =
     (if q = 0 then Num 0
      else
        let a = \<bar>q\<bar>;
            e = ilog2 a;
            p = max e (- 1022) - 52;
            v = of_int (round_half_even (a / pow2 p)) * pow2 p
        in if pow2 1024 \<le> v then (if q < 0 then NInf else PInf)
           else Num (if q < 0 then - v else v))"

definition js_neg :: "js_number \<Rightarrow> js_number" where
  "js_neg x = (case x of NaN \<Rightarrow> NaN | PInf \<Rightarrow> NInf | NInf \<Rightarrow> PInf | Num q \<Rightarrow> Num (- q))"

text \<open>\<^verbatim>\<open>x < y\<close>, \<^verbatim>\<open>x <= y\<close> and \<^verbatim>\<open>x === y\<close> on numbers: false when either is not-a-number.\<close>

fun js_lt :: "js_number \<Rightarrow> js_number \<Rightarrow> bool" where
  "js_lt NaN _ = False"
| "js_lt _ NaN = False"
| "js_lt PInf _ = False"
| "js_lt _ NInf = False"
| "js_lt NInf _ = True"
| "js_lt _ PInf = True"
| "js_lt (Num a) (Num b) = (a < b)"

fun js_strict_eq :: "js_number \<Rightarrow> js_number \<Rightarrow> bool" where
  "js_strict_eq NaN _ = False"
| "js_strict_eq _ NaN = False"
| "js_strict_eq x y = (x = y)"

definition js_le :: "js_number \<Rightarrow> js_number \<Rightarrow> bool" where
  "js_le x y = (js_lt x y \<or> js_strict_eq x y)"

text \<open>\<^verbatim>\<open>x - y\<close> on numbers.\<close>

fun js_sub :: "js_number \<Rightarrow> js_number \<Rightarrow> js_number" where
  "js_sub NaN _ = NaN"
| "js_sub _ NaN = NaN"
| "js_sub PInf PInf = NaN"
| "js_sub NInf NInf = NaN"
| "js_sub PInf _ = PInf"
| "js_sub NInf _ = NInf"
| "js_sub _ PInf = NInf"
| "js_sub _ NInf = PInf"
| "js_sub (Num a) (Num b) = to_double (a - b)"

definition isNaN :: "js_number \<Rightarrow> bool" where
  "isNaN x = (x = NaN)"

subsection \<open>Reading a number from a string\<close>

text \<open>
  The decimal literal of the string-to-number grammar: an optional sign, then
  \<^verbatim>\<open>Infinity\<close>, or digits with an optional fraction and an optional exponent, or a
  fraction with its dot and an optional exponent. Each function returns the value read and
  the rest of the string, so that \<open>parseFloat\<close> can take the longest prefix that is a
  literal and \<open>Number\<close> can demand that nothing is left.
\<close>

definition exponent_part :: "string \<Rightarrow> int \<times> string" where
  "exponent_part r =
     (case r of
        [] \<Rightarrow> (0, r)
      | c # r1 \<Rightarrow>
          if c = CHR ''e'' \<or> c = CHR ''E'' then
            (let sr = (case r1 of
                         [] \<Rightarrow> (1, r1)
                       | s # r2 \<Rightarrow>
                           if s = CHR ''+'' then (1, r2)
                           else if s = CHR ''-'' then (- 1, r2)
                           else (1, r1));
                 ds = takeWhile is_digit (snd sr)
             in if ds = [] then (0, r)
                else (fst sr * radix_value 10 ds, dropWhile is_digit (snd sr)))
          else (0, r))"

definition unsigned_decimal :: "string \<Rightarrow> (js_number \<times> string) option" where
  "unsigned_decimal u =
     (if take 8 u = ''Infinity'' then Some (PInf, drop 8 u)
      else
        let ip = takeWhile is_digit u;
            r1 = dropWhile is_digit u;
            fr = (case r1 of
                    [] \<Rightarrow> ([], r1)
                  | c # r \<Rightarrow>
                      if c = CHR ''.'' then (takeWhile is_digit r, dropWhile is_digit r)
                      else ([], r1));
            fp = fst fr
        in if ip = [] \<and> fp = [] then None
           else
             let er = exponent_part (snd fr)
             in Some (to_double
                        ((of_int (radix_value 10 ip)
                          + of_int (radix_value 10 fp) / of_int (10 ^ length fp))
                         * pow10 (fst er)),
                      snd er))"

definition str_decimal_literal :: "string \<Rightarrow> (js_number \<times> string) option" where
  "str_decimal_literal t =
     (case t of
        [] \<Rightarrow> None
      | c # r \<Rightarrow>
          if c = CHR ''+'' then unsigned_decimal r
          else if c = CHR ''-'' then
            map_option (\<lambda>vr. (js_neg (fst vr), snd vr)) (unsigned_decimal r)
          else unsigned_decimal t)"

text \<open>\<^verbatim>\<open>parseFloat(s)\<close>: leading white space is skipped, trailing text is ignored.\<close>

definition parseFloat :: "string \<Rightarrow> js_number" where
  "parseFloat s =
     (case str_decimal_literal (dropWhile is_ws s) of None \<Rightarrow> NaN | Some vr \<Rightarrow> fst vr)"

text \<open>
  \<^verbatim>\<open>Number(s)\<close> on a string: the whole trimmed string has to be a literal; the empty
  string is zero.
\<close>

definition Number_of_string :: "string \<Rightarrow> js_number" where
  "Number_of_string s =
     (let t = trim s in
      if t = [] then Num 0
      else (case prefixed_radix t of
              Some b \<Rightarrow>
                (case parse_radix b (drop 2 t) of
                   None \<Rightarrow> NaN
                 | Some v \<Rightarrow> to_double (of_int v))
            | None \<Rightarrow>
                (case str_decimal_literal t of
                   None \<Rightarrow> NaN
                 | Some vr \<Rightarrow> if snd vr = [] then fst vr else NaN)))"

section \<open>Records and errors\<close>

text \<open>
  The two error classes the code throws; messages are not modelled. Identifiers and
  precisions are integers. The field \<open>proofElements\<close> is the source's \<^verbatim>\<open>proof\<close>.
\<close>

datatype error = SmartRewardsError | ClaimError

record ClaimProof =
  chainId :: int
  lastBlockUpdatedTo :: int
  user :: string
  campaignId :: int
  amount :: string
  proofElements :: "string list"

record ClaimReward =
  claimId :: string
  user :: string
  amount :: string
  campaign :: string
  chainId :: int
  timestamp :: int

record ClaimCalculations =
  totalEligible :: string
  totalClaimed :: string
  remaining :: string
  canClaim :: bool

section \<open>RewardCalculator\<close>

definition toBaseUnits :: "string \<Rightarrow> int \<Rightarrow> error + string" where
  "toBaseUnits decimalAmount decimals =
     (if decimalAmount = [] \<or> isNaN (parseFloat decimalAmount) then Inl SmartRewardsError
      else if decimals < 0 \<or> decimals > 77 then Inl SmartRewardsError
      else
        let parts = split_on (CHR ''.'') decimalAmount;
            whole = (case parts of [] \<Rightarrow> [] | w # _ \<Rightarrow> w);
            fractional = (case parts of w # f # _ \<Rightarrow> f | _ \<Rightarrow> []);
            paddedFractional = slice (padEnd fractional decimals) 0 decimals;
            baseUnits = whole @ paddedFractional;
            stripped = strip_leading_zeros baseUnits;
            result = (if stripped = [] then ''0'' else stripped)
        in if \<not> all_digits result then Inl SmartRewardsError else Inr result)"

definition fromBaseUnits :: "string \<Rightarrow> int \<Rightarrow> error + string" where
  "fromBaseUnits baseUnits decimals =
     (if baseUnits = [] \<or> \<not> all_digits baseUnits then Inl SmartRewardsError
      else if decimals < 0 \<or> decimals > 77 then Inl SmartRewardsError
      else if decimals = 0 then Inr baseUnits
      else
        let paddedBaseUnits = padStart baseUnits (decimals + 1);
            wholePartLength = int (length paddedBaseUnits) - decimals;
            wholeSlice = slice paddedBaseUnits 0 wholePartLength;
            wholePart = (if wholeSlice = [] then ''0'' else wholeSlice);
            fractionalPart = slice_from paddedBaseUnits wholePartLength;
            trimmedFractional = strip_trailing_zeros fractionalPart
        in if trimmedFractional = [] then Inr wholePart
           else Inr (wholePart @ ''.'' @ trimmedFractional))"

definition addBaseUnits :: "string \<Rightarrow> string \<Rightarrow> error + string" where
  "addBaseUnits amount1 amount2 =
     (case BigInt amount1 of
        None \<Rightarrow> Inl SmartRewardsError
      | Some num1 \<Rightarrow>
          (case BigInt amount2 of
             None \<Rightarrow> Inl SmartRewardsError
           | Some num2 \<Rightarrow> Inr (BigInt_toString (num1 + num2))))"

definition subtractBaseUnits :: "string \<Rightarrow> string \<Rightarrow> error + string" where
  "subtractBaseUnits amount1 amount2 =
     (case BigInt amount1 of
        None \<Rightarrow> Inl SmartRewardsError
      | Some num1 \<Rightarrow>
          (case BigInt amount2 of
             None \<Rightarrow> Inl SmartRewardsError
           | Some num2 \<Rightarrow>
               (let result = num1 - num2
                in if result < 0 then Inr ''0'' else Inr (BigInt_toString result))))"

definition compareBaseUnits :: "string \<Rightarrow> string \<Rightarrow> error + int" where
  "compareBaseUnits amount1 amount2 =
     (case BigInt amount1 of
        None \<Rightarrow> Inl SmartRewardsError
      | Some num1 \<Rightarrow>
          (case BigInt amount2 of
             None \<Rightarrow> Inl SmartRewardsError
           | Some num2 \<Rightarrow>
               if num1 < num2 then Inr (- 1) else if num1 > num2 then Inr 1 else Inr 0))"

text \<open>
  The body shared by the loops of \<^verbatim>\<open>calculateTotalEligible\<close> and
  \<^verbatim>\<open>calculateTotalClaimed\<close>: convert the next amount, add it to the running total, stop
  at the first error.
\<close>

fun accumulate :: "string list \<Rightarrow> int \<Rightarrow> string \<Rightarrow> error + string" where
  "accumulate [] decimals tot = Inr tot"
| "accumulate (a # as) decimals tot =
     (case toBaseUnits a decimals of
        Inl e \<Rightarrow> Inl e
      | Inr baseUnits \<Rightarrow>
          (case addBaseUnits tot baseUnits of
             Inl e \<Rightarrow> Inl e
           | Inr tot' \<Rightarrow> accumulate as decimals tot'))"

definition calculateTotalEligible :: "ClaimProof list \<Rightarrow> int \<Rightarrow> error + string" where
  "calculateTotalEligible proofs decimals =
     (case accumulate (map ClaimProof.amount proofs) decimals ''0'' of
        Inl e \<Rightarrow> Inl SmartRewardsError
      | Inr tot \<Rightarrow> Inr tot)"

definition calculateTotalClaimed :: "ClaimReward list \<Rightarrow> int \<Rightarrow> int \<Rightarrow> error + string" where
  "calculateTotalClaimed claims cid decimals =
     (let campaignClaims =
            filter (\<lambda>claim. js_strict_eq (Number_of_string (campaign claim)) (Num (of_int cid)))
              claims
      in case accumulate (map ClaimReward.amount campaignClaims) decimals ''0'' of
           Inl e \<Rightarrow> Inl SmartRewardsError
         | Inr tot \<Rightarrow> Inr tot)"

definition calculateRemaining :: "string \<Rightarrow> string \<Rightarrow> error + string" where
  "calculateRemaining eligible claimed = subtractBaseUnits eligible claimed"

definition performCalculations ::
  "ClaimProof list \<Rightarrow> ClaimReward list \<Rightarrow> int \<Rightarrow> int \<Rightarrow> error + ClaimCalculations" where
  "performCalculations proofs claims cid decimals =
     (case calculateTotalEligible proofs decimals of
        Inl e \<Rightarrow> Inl SmartRewardsError
      | Inr eligible \<Rightarrow>
          (case calculateTotalClaimed claims cid decimals of
             Inl e \<Rightarrow> Inl SmartRewardsError
           | Inr claimed \<Rightarrow>
               (case calculateRemaining eligible claimed of
                  Inl e \<Rightarrow> Inl SmartRewardsError
                | Inr rest \<Rightarrow>
                    (case compareBaseUnits rest ''0'' of
                       Inl e \<Rightarrow> Inl SmartRewardsError
                     | Inr c \<Rightarrow>
                         Inr \<lparr>totalEligible = eligible, totalClaimed = claimed,
                              remaining = rest, canClaim = (c > 0)\<rparr>))))"

text \<open>\<^verbatim>\<open>formatCalculations\<close> has no handler of its own: the first conversion that throws ends it.\<close>

definition formatCalculations :: "ClaimCalculations \<Rightarrow> int \<Rightarrow> error + ClaimCalculations" where
  "formatCalculations calculations decimals =
     (case fromBaseUnits (totalEligible calculations) decimals of
        Inl e \<Rightarrow> Inl e
      | Inr eligible \<Rightarrow>
          (case fromBaseUnits (totalClaimed calculations) decimals of
             Inl e \<Rightarrow> Inl e
           | Inr claimed \<Rightarrow>
               (case fromBaseUnits (remaining calculations) decimals of
                  Inl e \<Rightarrow> Inl e
                | Inr rest \<Rightarrow>
                    Inr \<lparr>totalEligible = eligible, totalClaimed = claimed,
                         remaining = rest, canClaim = canClaim calculations\<rparr>)))"

text \<open>
  \<^verbatim>\<open>validateClaimProofs\<close> returns nothing; it throws at the first record that fails a
  check. \<^verbatim>\<open>!proof.amount\<close> holds for the empty string.
\<close>

fun validateClaimProofs :: "ClaimProof list \<Rightarrow> string \<Rightarrow> int \<Rightarrow> error + unit" where
  "validateClaimProofs [] expectedUser expectedCampaignId = Inr ()"
| "validateClaimProofs (p # ps) expectedUser expectedCampaignId =
     (if toLowerCase (ClaimProof.user p) \<noteq> toLowerCase expectedUser then Inl SmartRewardsError
      else if campaignId p \<noteq> expectedCampaignId then Inl SmartRewardsError
      else if proofElements p = [] then Inl SmartRewardsError
      else if ClaimProof.amount p = [] \<or> js_le (parseFloat (ClaimProof.amount p)) (Num 0)
        then Inl SmartRewardsError
      else validateClaimProofs ps expectedUser expectedCampaignId)"

fun validateHistoricalClaims :: "ClaimReward list \<Rightarrow> string \<Rightarrow> error + unit" where
  "validateHistoricalClaims [] expectedUser = Inr ()"
| "validateHistoricalClaims (c # cs) expectedUser =
     (if toLowerCase (ClaimReward.user c) \<noteq> toLowerCase expectedUser then Inl SmartRewardsError
      else if ClaimReward.amount c = [] \<or> js_le (parseFloat (ClaimReward.amount c)) (Num 0)
        then Inl SmartRewardsError
      else if campaign c = [] \<or> isNaN (Number_of_string (campaign c)) then Inl SmartRewardsError
      else validateHistoricalClaims cs expectedUser)"

definition MAX_UINT256 :: int where
  "MAX_UINT256 = 2 ^ 256 - 1"

fun validateAmountsForOnChain :: "string list \<Rightarrow> bool" where
  "validateAmountsForOnChain [] = True"
| "validateAmountsForOnChain (a # as) =
     (case BigInt a of
        None \<Rightarrow> False
      | Some v \<Rightarrow> if v < 0 \<or> v > MAX_UINT256 then False else validateAmountsForOnChain as)"

section \<open>SmartRewardsGraphQLClient\<close>

text \<open>
  A page of a paginated query. The cursor of the page info is absent when the service
  sends \<^verbatim>\<open>null\<close>. The field \<open>edgeCursor\<close> is the source's \<^verbatim>\<open>cursor\<close> of an edge, which
  the code never reads.
\<close>

record PageInfo =
  endCursor :: "string option"
  hasNextPage :: bool

record 'a Edge =
  edgeCursor :: string
  node :: 'a

record 'a Connection =
  totalCount :: int
  edges :: "'a Edge list"
  pageInfo :: PageInfo

text \<open>\<^verbatim>\<open>!cursor\<close>: the cursor is \<^verbatim>\<open>null\<close> or the empty string.\<close>

definition no_cursor :: "string option \<Rightarrow> bool" where
  "no_cursor c = (case c of None \<Rightarrow> True | Some s \<Rightarrow> s = [])"

text \<open>
  The loop of \<^verbatim>\<open>fetchAllClaimProofs\<close> and of \<^verbatim>\<open>fetchAllHistoricalClaims\<close>, entered
  with \<^verbatim>\<open>hasNextPage\<close> true. The query is a parameter: \<open>fetch n c\<close> is the outcome of the
  \<open>n\<close>-th request, made with cursor \<open>c\<close>. The loop may run forever, so its result is an
  option. Next to the records it returns the number of requests it has made, which the
  source does not return.
\<close>

partial_function (option) paginate ::
  "(nat \<Rightarrow> string option \<Rightarrow> error + 'a Connection) \<Rightarrow> nat \<Rightarrow> string option \<Rightarrow> 'a list \<Rightarrow>
   ((error + 'a list) \<times> nat) option" where
  "paginate fetch n cursor collected =
     (case fetch n cursor of
        Inl e \<Rightarrow> Some (Inl SmartRewardsError, Suc n)
      | Inr response \<Rightarrow>
          if no_cursor (endCursor (pageInfo response)) \<and> hasNextPage (pageInfo response)
          then Some (Inr (collected @ map node (edges response)), Suc n)
          else if hasNextPage (pageInfo response)
          then paginate fetch (Suc n) (endCursor (pageInfo response))
                 (collected @ map node (edges response))
          else Some (Inr (collected @ map node (edges response)), Suc n))"

declare paginate.simps [code]

definition fetchAllClaimProofs ::
  "(nat \<Rightarrow> string option \<Rightarrow> error + ClaimProof Connection) \<Rightarrow>
   ((error + ClaimProof list) \<times> nat) option" where
  "fetchAllClaimProofs fetchClaimProofs = paginate fetchClaimProofs 0 None []"

definition fetchAllHistoricalClaims ::
  "(nat \<Rightarrow> string option \<Rightarrow> error + ClaimReward Connection) \<Rightarrow>
   ((error + ClaimReward list) \<times> nat) option" where
  "fetchAllHistoricalClaims fetchHistoricalClaims = paginate fetchHistoricalClaims 0 None []"

subsection \<open>Validated fetches\<close>

text \<open>
  Of a campaign and its reward token only the fields the reconciliation reads are kept;
  the source's records have more.
\<close>

record Token =
  tokenId :: string
  symbol :: string
  decimals :: int

record Campaign =
  chainId :: int
  rewardToken :: Token
  campaignId :: int
  liquidityPool :: string

text \<open>\<^verbatim>\<open>/^0x[a-fA-F0-9]{40}$/.test(s)\<close>.\<close>

definition is_address :: "string \<Rightarrow> bool" where
  "is_address s =
     (length s = 42 \<and> take 2 s = ''0x'' \<and> list_all (valid_in_radix 16) (drop 2 s))"

definition validateUserAddress :: "string \<Rightarrow> error + unit" where
  "validateUserAddress u =
     (if u = [] \<or> \<not> is_address u then Inl SmartRewardsError else Inr ())"

definition validatePoolAddress :: "string \<Rightarrow> error + unit" where
  "validatePoolAddress pool =
     (if pool = [] \<or> \<not> is_address pool then Inl SmartRewardsError else Inr ())"

definition validateChainId :: "int \<Rightarrow> error + unit" where
  "validateChainId chain = (if chain = 0 \<or> chain \<le> 0 then Inl SmartRewardsError else Inr ())"

definition validateCampaignId :: "int \<Rightarrow> error + unit" where
  "validateCampaignId cid = (if cid = 0 \<or> cid \<le> 0 then Inl SmartRewardsError else Inr ())"

text \<open>
  The services the client talks to. The campaign directory answers a chain with its
  campaigns or fails. The two record queries answer the \<open>n\<close>-th request of a pagination,
  made with a cursor, with a page or fail. The same request gets the same answer: the
  services do not change during a run.
\<close>

record services =
  fetchCampaignsByChainId :: "int \<Rightarrow> error + Campaign list"
  fetchClaimProofs ::
    "string \<Rightarrow> int \<Rightarrow> int \<Rightarrow> nat \<Rightarrow> string option \<Rightarrow> error + ClaimProof Connection"
  fetchHistoricalClaims ::
    "string \<Rightarrow> int \<Rightarrow> string \<Rightarrow> nat \<Rightarrow> string option \<Rightarrow> error + ClaimReward Connection"

definition fetchClaimProofsValidated ::
  "services \<Rightarrow> string \<Rightarrow> int \<Rightarrow> int \<Rightarrow> (error + ClaimProof list) option" where
  "fetchClaimProofsValidated env u chain cid =
     (case validateUserAddress u of
        Inl e \<Rightarrow> Some (Inl e)
      | Inr _ \<Rightarrow>
          (case validateChainId chain of
             Inl e \<Rightarrow> Some (Inl e)
           | Inr _ \<Rightarrow>
               (case validateCampaignId cid of
                  Inl e \<Rightarrow> Some (Inl e)
                | Inr _ \<Rightarrow>
                    map_option fst (fetchAllClaimProofs (fetchClaimProofs env u chain cid)))))"

definition fetchHistoricalClaimsForCampaign ::
  "services \<Rightarrow> string \<Rightarrow> int \<Rightarrow> string \<Rightarrow> int \<Rightarrow> (error + ClaimReward list) option" where
  "fetchHistoricalClaimsForCampaign env pool chain u cid =
     (case fetchAllHistoricalClaims (fetchHistoricalClaims env pool chain u) of
        None \<Rightarrow> None
      | Some res \<Rightarrow>
          (case fst res of
             Inl e \<Rightarrow> Some (Inl SmartRewardsError)
           | Inr allClaims \<Rightarrow>
               Some (Inr (filter
                            (\<lambda>claim. js_strict_eq (Number_of_string (campaign claim))
                                       (Num (of_int cid)))
                            allClaims))))"

definition fetchHistoricalClaimsValidated ::
  "services \<Rightarrow> string \<Rightarrow> int \<Rightarrow> string \<Rightarrow> int option \<Rightarrow> (error + ClaimReward list) option" where
  "fetchHistoricalClaimsValidated env pool chain u cid =
     (case validatePoolAddress pool of
        Inl e \<Rightarrow> Some (Inl e)
      | Inr _ \<Rightarrow>
          (case validateChainId chain of
             Inl e \<Rightarrow> Some (Inl e)
           | Inr _ \<Rightarrow>
               (case validateUserAddress u of
                  Inl e \<Rightarrow> Some (Inl e)
                | Inr _ \<Rightarrow>
                    (case cid of
                       Some c \<Rightarrow>
                         (case validateCampaignId c of
                            Inl e \<Rightarrow> Some (Inl e)
                          | Inr _ \<Rightarrow> fetchHistoricalClaimsForCampaign env pool chain u c)
                     | None \<Rightarrow>
                         map_option fst
                           (fetchAllHistoricalClaims (fetchHistoricalClaims env pool chain u))))))"

section \<open>OnChainClaimClient\<close>

record SmartRewarderClaimArgs =
  users :: "string list"
  campaignIds :: "int list"
  amounts :: "string list"
  proofs :: "string list list"

text \<open>
  The loop of \<^verbatim>\<open>prepareClaimArgs\<close>: a record with no user or no proof element throws,
  any other record is pushed onto the four arrays.
\<close>

fun push_proofs :: "ClaimProof list \<Rightarrow> SmartRewarderClaimArgs \<Rightarrow> error + SmartRewarderClaimArgs" where
  "push_proofs [] args = Inr args"
| "push_proofs (p # ps) args =
     (if ClaimProof.user p = [] \<or> proofElements p = [] then Inl ClaimError
      else push_proofs ps
             \<lparr>users = users args @ [ClaimProof.user p],
              campaignIds = campaignIds args @ [ClaimProof.campaignId p],
              amounts = amounts args @ [ClaimProof.amount p],
              proofs = proofs args @ [proofElements p]\<rparr>)"

definition prepareClaimArgs :: "ClaimProof list \<Rightarrow> error + SmartRewarderClaimArgs" where
  "prepareClaimArgs ps =
     (if length ps = 0 then Inl ClaimError
      else
        (case push_proofs ps \<lparr>users = [], campaignIds = [], amounts = [], proofs = []\<rparr> of
           Inl e \<Rightarrow> Inl ClaimError
         | Inr args \<Rightarrow>
             if length (users args) \<noteq> length (campaignIds args)
                \<or> length (users args) \<noteq> length (amounts args)
                \<or> length (users args) \<noteq> length (proofs args)
             then Inl ClaimError
             else if \<not> validateAmountsForOnChain (amounts args) then Inl ClaimError
             else Inr args))"

text \<open>
  \<^verbatim>\<open>claimSingle\<close> and \<^verbatim>\<open>claimBatch\<close> prepare the arguments and hand them to
  \<^verbatim>\<open>executeClaim\<close>, the call to the contract. That call is a parameter here: a function
  of the chain, the arguments and the state of the chain, returning the outcome and the new
  state.
\<close>

definition claimSingle ::
  "(int \<Rightarrow> SmartRewarderClaimArgs \<Rightarrow> 'w \<Rightarrow> (error + 'r) \<times> 'w) \<Rightarrow> int \<Rightarrow> ClaimProof \<Rightarrow> 'w \<Rightarrow>
   (error + 'r) \<times> 'w" where
  "claimSingle executeClaim chain p w =
     (case prepareClaimArgs [p] of
        Inl e \<Rightarrow> (Inl e, w)
      | Inr claimArgs \<Rightarrow> executeClaim chain claimArgs w)"

definition claimBatch ::
  "(int \<Rightarrow> SmartRewarderClaimArgs \<Rightarrow> 'w \<Rightarrow> (error + 'r) \<times> 'w) \<Rightarrow> int \<Rightarrow> ClaimProof list \<Rightarrow> 'w \<Rightarrow>
   (error + 'r) \<times> 'w" where
  "claimBatch executeClaim chain ps w =
     (if length ps = 0 then (Inl ClaimError, w)
      else
        (case prepareClaimArgs ps of
           Inl e \<Rightarrow> (Inl e, w)
         | Inr claimArgs \<Rightarrow> executeClaim chain claimArgs w))"

section \<open>SmartRewardsClient\<close>

definition getCampaignById :: "services \<Rightarrow> int \<Rightarrow> int \<Rightarrow> error + Campaign option" where
  "getCampaignById env chain cid =
     (case fetchCampaignsByChainId env chain of
        Inl e \<Rightarrow> Inl SmartRewardsError
      | Inr result \<Rightarrow> Inr (find (\<lambda>c. Campaign.campaignId c = cid) result))"

definition getClaimProofs ::
  "services \<Rightarrow> string \<Rightarrow> int \<Rightarrow> int \<Rightarrow> (error + ClaimProof list) option" where
  "getClaimProofs env u chain cid = fetchClaimProofsValidated env u chain cid"

definition getHistoricalClaims ::
  "services \<Rightarrow> string \<Rightarrow> int \<Rightarrow> string \<Rightarrow> int option \<Rightarrow> (error + ClaimReward list) option" where
  "getHistoricalClaims env pool chain u cid = fetchHistoricalClaimsValidated env pool chain u cid"

record Rewards =
  rewardProofs :: "ClaimProof list"
  rewardClaims :: "ClaimReward list"
  calculations :: ClaimCalculations
  rewardTokenDecimals :: int

text \<open>
  \<^verbatim>\<open>calculateRewards\<close>: look the campaign up, fetch its proofs and the claims of its pool,
  reconcile. It has no result when a fetch does not end. The fields \<open>rewardProofs\<close> and
  \<open>rewardClaims\<close> are the source's \<^verbatim>\<open>proofs\<close> and \<^verbatim>\<open>claims\<close>.
\<close>

definition calculateRewards ::
  "services \<Rightarrow> string \<Rightarrow> int \<Rightarrow> int \<Rightarrow> (error + Rewards) option" where
  "calculateRewards env u chain cid =
     (case getCampaignById env chain cid of
        Inl e \<Rightarrow> Some (Inl e)
      | Inr None \<Rightarrow> Some (Inl SmartRewardsError)
      | Inr (Some c) \<Rightarrow>
          (case getClaimProofs env u chain cid of
             None \<Rightarrow> None
           | Some (Inl e) \<Rightarrow> Some (Inl e)
           | Some (Inr ps) \<Rightarrow>
               (case getHistoricalClaims env (liquidityPool c) chain u (Some cid) of
                  None \<Rightarrow> None
                | Some (Inl e) \<Rightarrow> Some (Inl e)
                | Some (Inr cs) \<Rightarrow>
                    (case performCalculations ps cs cid (decimals (rewardToken c)) of
                       Inl e \<Rightarrow> Some (Inl e)
                     | Inr calc \<Rightarrow>
                         Some (Inr \<lparr>rewardProofs = ps, rewardClaims = cs, calculations = calc,
                                    rewardTokenDecimals = decimals (rewardToken c)\<rparr>)))))"

text \<open>
  An entry of the result of \<^verbatim>\<open>getUserClaimableCampaigns\<close>. Its fields are the source's
  \<^verbatim>\<open>campaign\<close>, \<^verbatim>\<open>canClaim\<close>, \<^verbatim>\<open>remaining\<close> and \<^verbatim>\<open>calculations\<close>.
\<close>

record Claimable =
  entryCampaign :: Campaign
  entryCanClaim :: bool
  entryRemaining :: string
  entryCalculations :: ClaimCalculations

text \<open>
  The comparison function given to \<^verbatim>\<open>sort\<close>: claimable entries first, then by the
  difference of the remaining amounts read as floating-point numbers.
\<close>

definition compareClaimable :: "Claimable \<Rightarrow> Claimable \<Rightarrow> js_number" where
  "compareClaimable a b =
     (if entryCanClaim a \<noteq> entryCanClaim b then (if entryCanClaim a then Num (- 1) else Num 1)
      else js_sub (parseFloat (entryRemaining b)) (parseFloat (entryRemaining a)))"

text \<open>
  \<^verbatim>\<open>Array.prototype.sort\<close> with a comparison function. The language asks for a stable
  sort and counts a not-a-number from the comparison as equal; for a comparison that is a
  consistent ordering the result is then determined, whatever the engine's algorithm, and
  is what this insertion sort computes: each element goes behind the elements it compares
  greater than and in front of the first one it does not.
\<close>

fun insert_by :: "('a \<Rightarrow> 'a \<Rightarrow> js_number) \<Rightarrow> 'a \<Rightarrow> 'a list \<Rightarrow> 'a list" where
  "insert_by cmp x [] = [x]"
| "insert_by cmp x (y # ys) =
     (if js_lt (Num 0) (cmp x y) then y # insert_by cmp x ys else x # y # ys)"

definition sort_by :: "('a \<Rightarrow> 'a \<Rightarrow> js_number) \<Rightarrow> 'a list \<Rightarrow> 'a list" where
  "sort_by cmp xs = foldr (insert_by cmp) xs []"

text \<open>
  The loop of \<^verbatim>\<open>getUserClaimableCampaigns\<close>: a campaign whose reconciliation or whose
  formatting throws is skipped, any other is pushed onto the results.
\<close>

fun claimable_loop ::
  "services \<Rightarrow> string \<Rightarrow> int \<Rightarrow> Campaign list \<Rightarrow> Claimable list \<Rightarrow> Claimable list option" where
  "claimable_loop env u chain [] results = Some results"
| "claimable_loop env u chain (c # cs) results =
     (case calculateRewards env u chain (Campaign.campaignId c) of
        None \<Rightarrow> None
      | Some (Inl e) \<Rightarrow> claimable_loop env u chain cs results
      | Some (Inr r) \<Rightarrow>
          (case formatCalculations (calculations r) (decimals (rewardToken c)) of
             Inl e \<Rightarrow> claimable_loop env u chain cs results
           | Inr formatted \<Rightarrow>
               claimable_loop env u chain cs
                 (results
                  @ [\<lparr>entryCampaign = c, entryCanClaim = canClaim (calculations r),
                      entryRemaining = remaining formatted,
                      entryCalculations = calculations r\<rparr>])))"

definition getUserClaimableCampaigns ::
  "services \<Rightarrow> string \<Rightarrow> int \<Rightarrow> Campaign list \<Rightarrow> (error + Claimable list) option" where
  "getUserClaimableCampaigns env u chain campaigns =
     (case claimable_loop env u chain campaigns [] of
        None \<Rightarrow> None
      | Some results \<Rightarrow> Some (Inr (sort_by compareClaimable results)))"

section \<open>Notions of the specification\<close>

text \<open>
  A base-unit string as the specification describes it: digits only, at least one, and no
  leading zero other than in the literal \<open>''0''\<close>.
\<close>

definition is_base_units :: "string \<Rightarrow> bool" where
  "is_base_units s = (all_digits s \<and> (s = ''0'' \<or> hd s \<noteq> CHR ''0''))"

text \<open>
  The integer that a conversion to base units denotes, for the sums of the
  specification; a conversion that failed contributes nothing.
\<close>

definition base_units_value :: "error + string \<Rightarrow> int" where
  "base_units_value r =
     (case r of
        Inl e \<Rightarrow> 0
      | Inr s \<Rightarrow> (case BigInt s of None \<Rightarrow> 0 | Some v \<Rightarrow> v))"

text \<open>The historical claims whose campaign field is numerically the target campaign.\<close>

definition of_campaign :: "int \<Rightarrow> ClaimReward \<Rightarrow> bool" where
  "of_campaign c h = js_strict_eq (Number_of_string (campaign h)) (Num (of_int c))"

text \<open>Records for concrete runs: only the fields the code reads vary.\<close>

definition mk_proof :: "string \<Rightarrow> int \<Rightarrow> string \<Rightarrow> string list \<Rightarrow> ClaimProof" where
  "mk_proof u cid a pf =
     \<lparr>ClaimProof.chainId = 1, lastBlockUpdatedTo = 100, user = u, campaignId = cid,
      amount = a, proofElements = pf\<rparr>"

definition mk_claim :: "string \<Rightarrow> string \<Rightarrow> string \<Rightarrow> ClaimReward" where
  "mk_claim u a c =
     \<lparr>claimId = ''claim'', user = u, amount = a, campaign = c, chainId = 1, timestamp = 0\<rparr>"

text \<open>
  The pages \<open>rs\<close> are the replies to the requests from the \<open>n\<close>-th on, the first made with
  cursor \<open>c\<close> and each later one with the end cursor of the page before it.
\<close>

fun served ::
  "(nat \<Rightarrow> string option \<Rightarrow> error + 'a Connection) \<Rightarrow> nat \<Rightarrow> string option \<Rightarrow>
   'a Connection list \<Rightarrow> bool" where
  "served fetch n c [] = True"
| "served fetch n c (r # rs) =
     (fetch n c = Inr r \<and> served fetch (Suc n) (endCursor (pageInfo r)) rs)"

text \<open>A page that announces a next page and names it, and one that announces it without a cursor.\<close>

definition continuing :: "'a Connection \<Rightarrow> bool" where
  "continuing r = (hasNextPage (pageInfo r) \<and> \<not> no_cursor (endCursor (pageInfo r)))"

definition dangling :: "'a Connection \<Rightarrow> bool" where
  "dangling r = (hasNextPage (pageInfo r) \<and> no_cursor (endCursor (pageInfo r)))"

definition records_of :: "'a Connection list \<Rightarrow> 'a list" where
  "records_of rs = concat (map (\<lambda>r. map node (edges r)) rs)"

text \<open>
  A non-negative decimal string as the specification means it: digits, at least one, then
  possibly a dot and further digits. Its whole part is what stands before the dot, its
  fractional part what stands after it. The canonical form drops the leading zeros of the
  whole part (keeping one digit) and the trailing zeros of the fractional part, and the dot
  with them when no fractional digit is left.
\<close>

definition whole_part :: "string \<Rightarrow> string" where
  "whole_part s = takeWhile (\<lambda>c. c \<noteq> CHR ''.'') s"

definition fraction_part :: "string \<Rightarrow> string" where
  "fraction_part s = drop 1 (dropWhile (\<lambda>c. c \<noteq> CHR ''.'') s)"

definition is_decimal :: "string \<Rightarrow> bool" where
  "is_decimal s = (all_digits (whole_part s) \<and> list_all is_digit (fraction_part s))"

definition canonical :: "string \<Rightarrow> string" where
  "canonical s =
     (let w = strip_leading_zeros (whole_part s);
          f = strip_trailing_zeros (fraction_part s)
      in (if w = [] then ''0'' else w) @ (if f = [] then [] else CHR ''.'' # f))"

text \<open>Leading zeros dropped, one digit kept: the last step of \<^verbatim>\<open>toBaseUnits\<close>.\<close>

definition normalised :: "string \<Rightarrow> string" where
  "normalised x = (if strip_leading_zeros x = [] then ''0'' else strip_leading_zeros x)"

text \<open>The finite doubles are among the integer multiples of \<open>2 ^ (- 1074)\<close>.\<close>

definition on_grid :: "rat \<Rightarrow> bool" where
  "on_grid q = (\<exists>k::int. q = of_int k * pow2 (- 1074))"

text \<open>A number that is not not-a-number: an infinity or a finite double.\<close>

definition proper :: "js_number \<Rightarrow> bool" where
  "proper x = (case x of NaN \<Rightarrow> False | Num q \<Rightarrow> on_grid q | _ \<Rightarrow> True)"

text \<open>
  The entry of a campaign whose reconciliation and formatting return without raising, and
  \<open>None\<close> for a campaign where one of them raises.
\<close>

definition reconciled :: "services \<Rightarrow> string \<Rightarrow> int \<Rightarrow> Campaign \<Rightarrow> Claimable option" where
  "reconciled env u chain c =
     (case calculateRewards env u chain (Campaign.campaignId c) of
        Some (Inr r) \<Rightarrow>
          (case formatCalculations (calculations r) (decimals (rewardToken c)) of
             Inl e \<Rightarrow> None
           | Inr formatted \<Rightarrow>
               Some \<lparr>entryCampaign = c, entryCanClaim = canClaim (calculations r),
                     entryRemaining = remaining formatted,
                     entryCalculations = calculations r\<rparr>)
      | _ \<Rightarrow> None)"

text \<open>
  The exact value of a decimal string, and the strings that \<^verbatim>\<open>parseFloat\<close> reads as
  exactly that value.
\<close>

definition decimal_value :: "string \<Rightarrow> rat" where
  "decimal_value s =
     of_int (radix_value 10 (whole_part s))
     + of_int (radix_value 10 (fraction_part s)) / of_int (10 ^ length (fraction_part s))"

definition read_exactly :: "string \<Rightarrow> bool" where
  "read_exactly s = (parseFloat s = Num (decimal_value s))"

text \<open>
  The order the comparison function of \<^verbatim>\<open>getUserClaimableCampaigns\<close> stands for:
  \<open>a\<close> may stand before \<open>b\<close>.
\<close>

definition precedes :: "Claimable \<Rightarrow> Claimable \<Rightarrow> bool" where
  "precedes a b =
     ((entryCanClaim a \<and> \<not> entryCanClaim b)
      \<or> (entryCanClaim a = entryCanClaim b
          \<and> js_le (parseFloat (entryRemaining b)) (parseFloat (entryRemaining a))))"

text \<open>
  Services for concrete runs. The directory knows the campaigns 1 to 4, all of one pool and
  with a token of precision 0. The proof query fails for campaign 2 and otherwise answers
  with one page holding one record, of amount 7 for campaign 3 and of amount 5 for the
  others. The user has no historical claims.
\<close>

definition example_user :: string where
  "example_user = ''0xaaaaaaaaaaaaaaaaaaaaaaaaaaaaaaaaaaaaaaaa''"

definition example_pool :: string where
  "example_pool = ''0xbbbbbbbbbbbbbbbbbbbbbbbbbbbbbbbbbbbbbbbb''"

definition example_campaign :: "int \<Rightarrow> Campaign" where
  "example_campaign n =
     \<lparr>Campaign.chainId = 1,
      rewardToken = \<lparr>tokenId = ''0xcccccccccccccccccccccccccccccccccccccccc'', symbol = ''TKN'',
                     decimals = 0\<rparr>,
      campaignId = n, liquidityPool = example_pool\<rparr>"

definition example_services :: services where
  "example_services =
     \<lparr>fetchCampaignsByChainId =
        (\<lambda>chain. Inr [example_campaign 1, example_campaign 2, example_campaign 3,
                       example_campaign 4]),
      fetchClaimProofs =
        (\<lambda>u chain cid n c.
           if cid = 2 then Inl SmartRewardsError
           else Inr \<lparr>totalCount = 1,
                     edges = [\<lparr>edgeCursor = ''k'',
                               node = mk_proof u cid (if cid = 3 then ''7'' else ''5'') [''0x01'']\<rparr>],
                     pageInfo = \<lparr>endCursor = None, hasNextPage = False\<rparr>\<rparr>),
      fetchHistoricalClaims =
        (\<lambda>pool chain u n c.
           Inr \<lparr>totalCount = 0, edges = [],
                pageInfo = \<lparr>endCursor = None, hasNextPage = False\<rparr>\<rparr>)\<rparr>"

definition example_entry :: "int \<Rightarrow> string \<Rightarrow> Claimable" where
  "example_entry n a =
     \<lparr>entryCampaign = example_campaign n, entryCanClaim = True, entryRemaining = a,
      entryCalculations =
        \<lparr>totalEligible = a, totalClaimed = ''0'', remaining = a, canClaim = True\<rparr>\<rparr>"

text \<open>
  A service that has the pages of a list to give, one for each request, and fails once they
  are used up.
\<close>

definition serve ::
  "'a Connection list \<Rightarrow> nat \<Rightarrow> string option \<Rightarrow> error + 'a Connection" where
  "serve pages n c = (if n < length pages then Inr (pages ! n) else Inl SmartRewardsError)"

text \<open>
  What it is for a string to be read as an integer, said without the algorithm. The value
  of a digit string in a base is the sum of its digits, each times the power of the base
  its place has. The body of a string is what is left of it without the white space at its
  two ends. A string is read as the integer \<open>v\<close> when its body is empty and \<open>v\<close> is zero, or
  is a string of decimal digits, possibly after a plus or a minus sign, with the value
  \<open>v\<close>, or is \<^verbatim>\<open>0x\<close>, \<^verbatim>\<open>0o\<close> or \<^verbatim>\<open>0b\<close> (in either case) followed by digits of the base
  16, 8 or 2 with the value \<open>v\<close>.
\<close>

fun positional :: "int \<Rightarrow> string \<Rightarrow> int" where
  "positional b [] = 0"
| "positional b (c # cs) =
     (case radix_digit c of None \<Rightarrow> 0 | Some v \<Rightarrow> v) * b ^ length cs + positional b cs"

definition body_of :: "string \<Rightarrow> string \<Rightarrow> bool" where
  "body_of s body =
     (\<exists>l r. s = l @ body @ r \<and> list_all is_ws l \<and> list_all is_ws r
            \<and> (body = [] \<or> (\<not> is_ws (hd body) \<and> \<not> is_ws (last body))))"

definition digits_in :: "int \<Rightarrow> string \<Rightarrow> bool" where
  "digits_in b ds = (ds \<noteq> [] \<and> list_all (valid_in_radix b) ds)"

definition reads_integer :: "string \<Rightarrow> int \<Rightarrow> bool" where
  "reads_integer s v =
     (\<exists>body. body_of s body
        \<and> ((body = [] \<and> v = 0)
           \<or> (\<exists>ds. digits_in 10 ds \<and> (body = ds \<or> body = CHR ''+'' # ds) \<and> v = positional 10 ds)
           \<or> (\<exists>ds. digits_in 10 ds \<and> body = CHR ''-'' # ds \<and> v = - positional 10 ds)
           \<or> (\<exists>ds. digits_in 16 ds \<and> (body = ''0x'' @ ds \<or> body = ''0X'' @ ds)
                  \<and> v = positional 16 ds)
           \<or> (\<exists>ds. digits_in 8 ds \<and> (body = ''0o'' @ ds \<or> body = ''0O'' @ ds)
                  \<and> v = positional 8 ds)
           \<or> (\<exists>ds. digits_in 2 ds \<and> (body = ''0b'' @ ds \<or> body = ''0B'' @ ds)
                  \<and> v = positional 2 ds)))"

text \<open>An integer written out: decimal digits, at least one, possibly after a sign.\<close>

definition integer_numeral :: "string \<Rightarrow> bool" where
  "integer_numeral s =
     (case s of
        [] \<Rightarrow> False
      | c # r \<Rightarrow> if c = CHR ''+'' \<or> c = CHR ''-'' then all_digits r else all_digits s)"

section \<open>Properties\<close>

subsection \<open>Digits and integers\<close>

lemma is_digit_not_ws: "is_digit c \<Longrightarrow> \<not> is_ws c"
  by (auto simp: is_digit_def is_ws_def)

lemma is_digit_not_marker:
  "is_digit c \<Longrightarrow>
     c \<noteq> CHR ''x'' \<and> c \<noteq> CHR ''X'' \<and> c \<noteq> CHR ''o'' \<and> c \<noteq> CHR ''O'' \<and> c \<noteq> CHR ''b'' \<and>
     c \<noteq> CHR ''B'' \<and> c \<noteq> CHR ''+'' \<and> c \<noteq> CHR ''-'' \<and> c \<noteq> CHR ''.'' \<and> c \<noteq> CHR ''I''"
  by (auto simp: is_digit_def)

lemma radix_digit_digit: "is_digit c \<Longrightarrow> radix_digit c = Some (digit_of c)"
  by (simp add: is_digit_def radix_digit_def digit_of_def Let_def)

lemma valid_in_radix_10: "valid_in_radix 10 c = is_digit c"
  by (auto simp: valid_in_radix_def radix_digit_def is_digit_def Let_def
      split: option.splits if_splits)

lemma digit_char_digit_of: "is_digit c \<Longrightarrow> digit_char (digit_of c) = c"
  by (simp add: is_digit_def digit_char_def digit_of_def)

lemma digit_of_digit_char: "0 \<le> n \<Longrightarrow> n < 10 \<Longrightarrow> digit_of (digit_char n) = n"
  by (simp add: digit_char_def digit_of_def)

lemma is_digit_digit_char: "0 \<le> n \<Longrightarrow> n < 10 \<Longrightarrow> is_digit (digit_char n)"
  by (simp add: digit_char_def is_digit_def)

lemma digit_of_range: "is_digit c \<Longrightarrow> 0 \<le> digit_of c \<and> digit_of c < 10"
  by (auto simp: is_digit_def digit_of_def)

lemma digit_of_pos: "is_digit c \<Longrightarrow> c \<noteq> CHR ''0'' \<Longrightarrow> 0 < digit_of c"
proof -
  assume d: "is_digit c" and nz: "c \<noteq> CHR ''0''"
  have "of_char c \<noteq> (48::int)"
  proof
    assume "of_char c = (48::int)"
    then have "char_of (of_char c :: int) = (char_of (48::int) :: char)" by simp
    moreover have "(char_of (48::int) :: char) = CHR ''0''" by code_simp
    ultimately have "c = CHR ''0''" by simp
    with nz show False by simp
  qed
  with d show ?thesis by (simp add: is_digit_def digit_of_def)
qed

lemma trim_no_ws:
  assumes "s \<noteq> []" "\<not> is_ws (hd s)" "\<not> is_ws (last s)"
  shows "trim s = s"
proof -
  have front: "dropWhile is_ws s = s"
    using assms by (simp add: dropWhile_eq_self_iff)
  have rear: "dropWhile is_ws (rev s) = rev s"
    using assms by (simp add: dropWhile_eq_self_iff hd_rev)
  show ?thesis by (simp add: trim_def front rear)
qed

lemma all_digits_hd: "all_digits s \<Longrightarrow> is_digit (hd s)"
  by (cases s) (auto simp: all_digits_def)

lemma all_digits_last: "all_digits s \<Longrightarrow> is_digit (last s)"
  by (cases s rule: rev_cases) (auto simp: all_digits_def)

lemma all_digits_trim: "all_digits s \<Longrightarrow> trim s = s"
  using all_digits_hd [of s] all_digits_last [of s] is_digit_not_ws
  by (intro trim_no_ws) (auto simp: all_digits_def)

lemma all_digits_prefixed_radix: "all_digits s \<Longrightarrow> prefixed_radix s = None"
proof (cases s)
  case Nil
  then show ?thesis by (simp add: prefixed_radix_def)
next
  case outer: (Cons c0 t)
  assume digits: "all_digits s"
  show ?thesis
  proof (cases t)
    case Nil
    with outer show ?thesis by (simp add: prefixed_radix_def)
  next
    case (Cons c1 r)
    with digits outer have "is_digit c1" by (simp add: all_digits_def)
    from is_digit_not_marker [OF this] show ?thesis
      using Cons outer by (simp add: prefixed_radix_def)
  qed
qed

lemma all_digits_signed_decimal: "all_digits s \<Longrightarrow> signed_decimal s = parse_radix 10 s"
proof (cases s)
  case Nil
  then show ?thesis by (simp add: signed_decimal_def parse_radix_def)
next
  case (Cons c r)
  assume "all_digits s"
  with Cons have "is_digit c" by (simp add: all_digits_def)
  from is_digit_not_marker [OF this] show ?thesis
    using Cons by (simp add: signed_decimal_def)
qed

lemma all_digits_parse_radix: "all_digits s \<Longrightarrow> parse_radix 10 s = Some (radix_value 10 s)"
  by (simp add: parse_radix_def all_digits_def valid_in_radix_10 [abs_def])

lemma all_digits_BigInt: "all_digits s \<Longrightarrow> BigInt s = Some (radix_value 10 s)"
  by (simp add: BigInt_def all_digits_trim all_digits_prefixed_radix all_digits_signed_decimal
      all_digits_parse_radix) (simp add: all_digits_def)

lemma radix_value_Nil: "radix_value b [] = 0"
  by (simp add: radix_value_def)

lemma radix_value_snoc:
  "radix_value b (s @ [c]) =
     radix_value b s * b + (case radix_digit c of None \<Rightarrow> 0 | Some v \<Rightarrow> v)"
  by (simp add: radix_value_def)

lemma radix_value_single: "is_digit c \<Longrightarrow> radix_value 10 [c] = digit_of c"
  by (simp add: radix_value_def radix_digit_digit)

lemma radix_value_nonneg: "list_all is_digit s \<Longrightarrow> 0 \<le> radix_value 10 s"
proof (induction s rule: rev_induct)
  case Nil
  then show ?case by (simp add: radix_value_Nil)
next
  case (snoc c t)
  then have "is_digit c" "0 \<le> radix_value 10 t" by simp_all
  then show ?case
    using digit_of_range [of c] by (simp add: radix_value_snoc radix_digit_digit)
qed

lemma radix_value_int_digits: "0 \<le> n \<Longrightarrow> radix_value 10 (int_digits n) = n"
proof (induction n rule: int_digits.induct)
  case (1 n)
  show ?case
  proof (cases "n < 10")
    case True
    with 1 show ?thesis
      by (subst int_digits.simps)
        (simp add: radix_value_single is_digit_digit_char digit_of_digit_char)
  next
    case False
    then have "radix_value 10 (int_digits (n div 10)) = n div 10"
      using 1 by simp
    with False show ?thesis
      by (subst int_digits.simps)
        (simp add: radix_value_snoc radix_digit_digit is_digit_digit_char digit_of_digit_char)
  qed
qed

lemma all_digits_int_digits: "0 \<le> n \<Longrightarrow> all_digits (int_digits n)"
proof (induction n rule: int_digits.induct)
  case (1 n)
  show ?case
  proof (cases "n < 10")
    case True
    with 1 show ?thesis
      by (subst int_digits.simps) (simp add: all_digits_def is_digit_digit_char)
  next
    case False
    then have "all_digits (int_digits (n div 10))"
      using 1 by simp
    with False show ?thesis
      by (subst int_digits.simps) (simp add: all_digits_def is_digit_digit_char)
  qed
qed

lemma all_digits_toString: "0 \<le> i \<Longrightarrow> all_digits (BigInt_toString i)"
  by (simp add: BigInt_toString_def all_digits_int_digits)

lemma BigInt_toString_nonneg: "0 \<le> i \<Longrightarrow> BigInt (BigInt_toString i) = Some i"
  by (simp add: BigInt_toString_def all_digits_BigInt all_digits_int_digits radix_value_int_digits)

lemma radix_value_pos: "all_digits s \<Longrightarrow> hd s \<noteq> CHR ''0'' \<Longrightarrow> 0 < radix_value 10 s"
proof (induction s rule: rev_induct)
  case Nil
  then show ?case by (simp add: all_digits_def)
next
  case (snoc c t)
  then have dc: "is_digit c" by (simp add: all_digits_def)
  show ?case
  proof (cases "t = []")
    case True
    with snoc.prems dc show ?thesis
      by (simp add: radix_value_single digit_of_pos)
  next
    case False
    with snoc.prems have "all_digits t" "hd t \<noteq> CHR ''0''" by (simp_all add: all_digits_def)
    then have "0 < radix_value 10 t" by (rule snoc.IH)
    then show ?thesis
      using digit_of_range [OF dc] by (simp add: radix_value_snoc radix_digit_digit dc)
  qed
qed

lemma int_digits_radix_value: "is_base_units s \<Longrightarrow> int_digits (radix_value 10 s) = s"
proof (induction s rule: rev_induct)
  case Nil
  then show ?case by (simp add: is_base_units_def all_digits_def)
next
  case (snoc c t)
  then have dc: "is_digit c" by (simp add: is_base_units_def all_digits_def)
  show ?case
  proof (cases "t = []")
    case True
    with dc show ?thesis
      using digit_of_range [OF dc]
      by (subst int_digits.simps) (simp add: radix_value_single digit_char_digit_of)
  next
    case False
    with snoc.prems have t: "all_digits t" "hd t \<noteq> CHR ''0''"
      by (auto simp: is_base_units_def all_digits_def)
    then have bt: "is_base_units t" by (simp add: is_base_units_def)
    have pos: "0 < radix_value 10 t" using t by (rule radix_value_pos)
    have val: "radix_value 10 (t @ [c]) = radix_value 10 t * 10 + digit_of c"
      by (simp add: radix_value_snoc radix_digit_digit dc)
    have big: "\<not> radix_value 10 t * 10 + digit_of c < 10"
      using pos digit_of_range [OF dc] by simp
    have dv: "(radix_value 10 t * 10 + digit_of c) div 10 = radix_value 10 t"
      using digit_of_range [OF dc] by simp
    have md: "(radix_value 10 t * 10 + digit_of c) mod 10 = digit_of c"
      using digit_of_range [OF dc] by simp
    show ?thesis
      unfolding val
      by (subst int_digits.simps)
        (simp only: big if_False dv md snoc.IH [OF bt] digit_char_digit_of [OF dc])
  qed
qed

lemma toString_BigInt: "is_base_units s \<Longrightarrow> BigInt s = Some v \<Longrightarrow> BigInt_toString v = s"
proof -
  assume b: "is_base_units s" and v: "BigInt s = Some v"
  from b have d: "all_digits s" by (simp add: is_base_units_def)
  with v have eq: "v = radix_value 10 s" by (simp add: all_digits_BigInt)
  from d have "0 \<le> radix_value 10 s" by (simp add: radix_value_nonneg all_digits_def)
  with eq b show ?thesis by (simp add: BigInt_toString_def int_digits_radix_value)
qed

subsection \<open>What \<open>BigInt\<close> reads\<close>

lemma radix_value_shift:
  "foldl (\<lambda>acc c. acc * b + (case radix_digit c of None \<Rightarrow> 0 | Some v \<Rightarrow> v)) a s =
     a * b ^ length s + radix_value b s"
proof (induction s arbitrary: a rule: rev_induct)
  case Nil
  then show ?case by (simp add: radix_value_def)
next
  case (snoc c s)
  show ?case
    by (simp add: snoc.IH radix_value_snoc algebra_simps)
qed

lemma radix_value_positional: "radix_value b s = positional b s"
proof (induction s)
  case Nil
  then show ?case by (simp add: radix_value_def)
next
  case (Cons c cs)
  have "radix_value b (c # cs) =
          (case radix_digit c of None \<Rightarrow> 0 | Some v \<Rightarrow> v) * b ^ length cs + radix_value b cs"
    using radix_value_shift [of b "case radix_digit c of None \<Rightarrow> 0 | Some v \<Rightarrow> v" cs]
    by (simp add: radix_value_def)
  with Cons show ?case
    by simp
qed

lemma body_of_trim: "body_of s (trim s)"
proof -
  let ?l = "takeWhile is_ws s"
  let ?d = "dropWhile is_ws s"
  let ?r = "rev (takeWhile is_ws (rev ?d))"
  have d: "?d = trim s @ ?r"
  proof -
    have "rev (takeWhile is_ws (rev ?d) @ dropWhile is_ws (rev ?d)) = rev (rev ?d)"
      by (simp only: takeWhile_dropWhile_id)
    then have "rev (dropWhile is_ws (rev ?d)) @ rev (takeWhile is_ws (rev ?d)) = ?d"
      by (simp only: rev_append rev_rev_ident)
    then show ?thesis
      by (simp only: trim_def)
  qed
  have "?l @ ?d = s"
    by simp
  with d have s: "s = ?l @ trim s @ ?r"
    by simp
  have l: "list_all is_ws ?l"
    by (auto simp: list_all_iff dest: set_takeWhileD)
  have r: "list_all is_ws ?r"
    by (auto simp: list_all_iff dest: set_takeWhileD)
  have ends: "\<not> is_ws (hd (trim s)) \<and> \<not> is_ws (last (trim s))" if ne: "trim s \<noteq> []"
  proof
    from ne have "dropWhile is_ws (rev ?d) \<noteq> []"
      by (simp add: trim_def)
    then have "\<not> is_ws (hd (dropWhile is_ws (rev ?d)))"
      by (rule hd_dropWhile)
    with ne show "\<not> is_ws (last (trim s))"
      by (simp add: trim_def last_rev)
    from ne d have "?d \<noteq> []" and "hd ?d = hd (trim s)"
      by (metis append_is_Nil_conv, metis hd_append2)
    with hd_dropWhile [of is_ws s] show "\<not> is_ws (hd (trim s))"
      by simp
  qed
  show ?thesis
    unfolding body_of_def using s l r ends by blast
qed

lemma body_of_unique:
  assumes "body_of s body"
  shows "body = trim s"
proof -
  from assms obtain l r where s: "s = l @ body @ r" and l: "list_all is_ws l"
    and r: "list_all is_ws r"
    and ends: "body = [] \<or> (\<not> is_ws (hd body) \<and> \<not> is_ws (last body))"
    unfolding body_of_def by blast
  have front: "dropWhile is_ws (l @ t) = dropWhile is_ws t" for t
    using l by (intro dropWhile_append2) (simp add: list_all_iff)
  have rear: "dropWhile is_ws (rev r @ t) = dropWhile is_ws t" for t
    using r by (intro dropWhile_append2) (simp add: list_all_iff)
  show ?thesis
  proof (cases "body = []")
    case True
    have "dropWhile is_ws (l @ r) = []"
      using l r by (simp add: list_all_iff)
    then have "trim (l @ r) = []"
      by (simp only: trim_def rev.simps dropWhile.simps)
    with True show ?thesis
      by (simp add: s)
  next
    case False
    with ends have h: "\<not> is_ws (hd body)" and t: "\<not> is_ws (last body)"
      by simp_all
    have "dropWhile is_ws (body @ r) = body @ r"
      using False h by (cases body) simp_all
    then have "dropWhile is_ws s = body @ r"
      by (simp add: s front)
    moreover have "dropWhile is_ws (rev body) = rev body"
      using False t by (simp add: dropWhile_eq_self_iff hd_rev)
    ultimately show ?thesis
      by (simp add: trim_def rear)
  qed
qed

lemma digits_in_10: "digits_in 10 ds \<longleftrightarrow> all_digits ds"
  by (simp add: digits_in_def all_digits_def valid_in_radix_10 [abs_def])

lemma parse_radix_iff: "parse_radix b ds = Some v \<longleftrightarrow> digits_in b ds \<and> v = positional b ds"
  by (auto simp: parse_radix_def digits_in_def radix_value_positional)

lemma prefixed_radix_Some:
  "prefixed_radix t = Some b \<longleftrightarrow>
     (\<exists>ds. (t = ''0x'' @ ds \<or> t = ''0X'' @ ds) \<and> b = 16)
     \<or> (\<exists>ds. (t = ''0o'' @ ds \<or> t = ''0O'' @ ds) \<and> b = 8)
     \<or> (\<exists>ds. (t = ''0b'' @ ds \<or> t = ''0B'' @ ds) \<and> b = 2)"
proof (cases t)
  case Nil
  then show ?thesis by (simp add: prefixed_radix_def)
next
  case outer: (Cons c0 t1)
  show ?thesis
  proof (cases t1)
    case Nil
    with outer show ?thesis by (simp add: prefixed_radix_def)
  next
    case (Cons c1 r)
    with outer have t: "t = c0 # c1 # r"
      by simp
    show ?thesis
      unfolding t prefixed_radix_def by (simp split: if_splits)
  qed
qed

lemma signed_decimal_iff:
  "signed_decimal t = Some v \<longleftrightarrow>
     (\<exists>ds. digits_in 10 ds \<and> (t = ds \<or> t = CHR ''+'' # ds) \<and> v = positional 10 ds)
     \<or> (\<exists>ds. digits_in 10 ds \<and> t = CHR ''-'' # ds \<and> v = - positional 10 ds)"
proof (cases t)
  case Nil
  then show ?thesis by (simp add: signed_decimal_def digits_in_def)
next
  case (Cons c r)
  have sign: "\<not> digits_in 10 (CHR ''+'' # ds)" "\<not> digits_in 10 (CHR ''-'' # ds)" for ds
    using is_digit_not_marker [of "CHR ''+''"] is_digit_not_marker [of "CHR ''-''"]
    by (auto simp: digits_in_10 all_digits_def)
  consider "c = CHR ''+''" | "c = CHR ''-''" | "c \<noteq> CHR ''+''" "c \<noteq> CHR ''-''"
    by blast
  then show ?thesis
  proof cases
    case 1
    with Cons sign show ?thesis
      by (auto simp: signed_decimal_def parse_radix_iff)
  next
    case 2
    with Cons sign show ?thesis
      by (auto simp: signed_decimal_def parse_radix_iff)
  next
    case 3
    with Cons show ?thesis
      by (auto simp: signed_decimal_def parse_radix_iff)
  qed
qed

lemma reads_integer_trim:
  "reads_integer s v \<longleftrightarrow>
     (trim s = [] \<and> v = 0)
     \<or> (\<exists>ds. digits_in 10 ds \<and> (trim s = ds \<or> trim s = CHR ''+'' # ds) \<and> v = positional 10 ds)
     \<or> (\<exists>ds. digits_in 10 ds \<and> trim s = CHR ''-'' # ds \<and> v = - positional 10 ds)
     \<or> (\<exists>ds. digits_in 16 ds \<and> (trim s = ''0x'' @ ds \<or> trim s = ''0X'' @ ds)
            \<and> v = positional 16 ds)
     \<or> (\<exists>ds. digits_in 8 ds \<and> (trim s = ''0o'' @ ds \<or> trim s = ''0O'' @ ds)
            \<and> v = positional 8 ds)
     \<or> (\<exists>ds. digits_in 2 ds \<and> (trim s = ''0b'' @ ds \<or> trim s = ''0B'' @ ds)
            \<and> v = positional 2 ds)"
proof -
  have "body_of s body \<longleftrightarrow> body = trim s" for body
    using body_of_trim [of s] body_of_unique [of s body] by auto
  then show ?thesis
    unfolding reads_integer_def by simp
qed

lemma prefixed_not_decimal:
  assumes "prefixed_radix t = Some b"
  shows "signed_decimal t = None"
proof -
  from assms obtain c0 c1 r where t: "t = c0 # c1 # r" and c0: "c0 = CHR ''0''"
    and c1: "c1 \<in> {CHR ''x'', CHR ''X'', CHR ''o'', CHR ''O'', CHR ''b'', CHR ''B''}"
    unfolding prefixed_radix_Some by auto
  from c1 have "\<not> is_digit c1"
    using is_digit_not_marker [of c1] by auto
  then have "parse_radix 10 (c0 # c1 # r) = None"
    by (simp add: parse_radix_def valid_in_radix_10)
  with c0 show ?thesis
    by (simp add: signed_decimal_def t)
qed

lemma BigInt_reads: "BigInt s = Some v \<longleftrightarrow> reads_integer s v"
proof (cases "trim s = []")
  case True
  have "\<not> digits_in b []" for b
    by (simp add: digits_in_def)
  with True show ?thesis
    by (auto simp: BigInt_def reads_integer_trim)
next
  case False
  show ?thesis
  proof (cases "prefixed_radix (trim s)")
    case None
    have no_prefix: "trim s \<noteq> p @ ds"
      if "p \<in> {''0x'', ''0X'', ''0o'', ''0O'', ''0b'', ''0B''}" for p ds
    proof
      assume "trim s = p @ ds"
      with that have "prefixed_radix (trim s) = Some 16 \<or> prefixed_radix (trim s) = Some 8
          \<or> prefixed_radix (trim s) = Some 2"
        unfolding prefixed_radix_Some by auto
      with None show False
        by simp
    qed
    have np: "trim s \<noteq> ''0x'' @ ds" "trim s \<noteq> ''0X'' @ ds" "trim s \<noteq> ''0o'' @ ds"
      "trim s \<noteq> ''0O'' @ ds" "trim s \<noteq> ''0b'' @ ds" "trim s \<noteq> ''0B'' @ ds" for ds
      by (rule no_prefix, simp)+
    have "BigInt s = signed_decimal (trim s)"
      using False None by (simp add: BigInt_def)
    moreover have "reads_integer s v \<longleftrightarrow>
        (\<exists>ds. digits_in 10 ds \<and> (trim s = ds \<or> trim s = CHR ''+'' # ds) \<and> v = positional 10 ds)
        \<or> (\<exists>ds. digits_in 10 ds \<and> trim s = CHR ''-'' # ds \<and> v = - positional 10 ds)"
      unfolding reads_integer_trim using False np by simp
    ultimately show ?thesis
      by (simp add: signed_decimal_iff)
  next
    case (Some b)
    then have none: "signed_decimal (trim s) = None"
      by (rule prefixed_not_decimal)
    from Some obtain c1 ds where shape: "trim s = CHR ''0'' # c1 # ds"
      and pb: "(c1 = CHR ''x'' \<or> c1 = CHR ''X'') \<and> b = 16
               \<or> (c1 = CHR ''o'' \<or> c1 = CHR ''O'') \<and> b = 8
               \<or> (c1 = CHR ''b'' \<or> c1 = CHR ''B'') \<and> b = 2"
      unfolding prefixed_radix_Some by auto
    have big: "BigInt s = parse_radix b ds"
      using False Some shape by (simp add: BigInt_def)
    have "reads_integer s v \<longleftrightarrow> digits_in b ds \<and> v = positional b ds"
    proof
      assume "reads_integer s v"
      then consider "trim s = [] \<and> v = 0"
        | "signed_decimal (trim s) = Some v"
        | b' p' ds' where "digits_in b' ds'" "trim s = p' @ ds'" "v = positional b' ds'"
          "(p' = ''0x'' \<or> p' = ''0X'') \<and> b' = 16 \<or> (p' = ''0o'' \<or> p' = ''0O'') \<and> b' = 8
               \<or> (p' = ''0b'' \<or> p' = ''0B'') \<and> b' = 2"
        unfolding reads_integer_trim signed_decimal_iff by blast
      then show "digits_in b ds \<and> v = positional b ds"
      proof cases
        case 1
        with False show ?thesis by simp
      next
        case 2
        with none show ?thesis by simp
      next
        case 3
        with shape pb have "ds' = ds \<and> b' = b"
          by auto
        with 3 show ?thesis
          by simp
      qed
    next
      assume "digits_in b ds \<and> v = positional b ds"
      with shape pb show "reads_integer s v"
        unfolding reads_integer_trim by auto
    qed
    with big show ?thesis
      by (simp add: parse_radix_iff)
  qed
qed

subsection \<open>The on-chain bound\<close>

lemma validateAmountsForOnChain_all:
  "validateAmountsForOnChain xs =
     list_all (\<lambda>a. case BigInt a of None \<Rightarrow> False | Some v \<Rightarrow> 0 \<le> v \<and> v \<le> MAX_UINT256)
       xs"
  by (induction xs) (auto split: option.splits)

lemma MAX_UINT256_literal:
  "BigInt ''0xffffffffffffffffffffffffffffffffffffffffffffffffffffffffffffffff'' = Some MAX_UINT256"
  by code_simp

text \<open>A no-break space counts as white space, as a tab does.\<close>

lemma BigInt_no_break_space:
  "BigInt [CHR 0xA0, CHR ''5'', CHR 0x09] = Some 5
   \<and> validateAmountsForOnChain [[CHR 0xA0, CHR ''5'']]"
  by code_simp

text \<open>
  C6 as it stands says that a string which does not parse as an integer makes the result
  false. The empty string and a string of spaces are no integers written out, yet
  \<^verbatim>\<open>BigInt\<close> reads them as zero and \<^verbatim>\<open>validateAmountsForOnChain\<close> returns true on them.
\<close>

theorem validateAmountsForOnChain_counterexample:
  "validateAmountsForOnChain [''''] \<and> validateAmountsForOnChain [''  '']
   \<and> \<not> integer_numeral '''' \<and> \<not> integer_numeral ''  ''"
  by code_simp

text \<open>
  C6, as amended. \<^verbatim>\<open>validateAmountsForOnChain\<close> returns true exactly when every amount of
  the list is read as an integer between 0 and \<open>2 ^ 256 - 1\<close>, where a string is read as
  follows: the white space at its two ends is dropped; nothing left is read as 0; decimal
  digits, possibly after a sign, are read as their value; \<^verbatim>\<open>0x\<close>, \<^verbatim>\<open>0o\<close> or \<^verbatim>\<open>0b\<close> with
  digits of that base are read as their value; nothing else is read. One amount that is not
  read, or is negative or too large, makes the result false for the whole list. The lists
  \<^verbatim>\<open>["-1"]\<close> and \<^verbatim>\<open>[String(2^256)]\<close> give false and \<^verbatim>\<open>["0"]\<close> gives true.
\<close>

theorem validateAmountsForOnChain_reads:
  "(validateAmountsForOnChain xs \<longleftrightarrow>
      (\<forall>a \<in> set xs. \<exists>v. reads_integer a v \<and> 0 \<le> v \<and> v \<le> 2 ^ 256 - 1))
   \<and> \<not> validateAmountsForOnChain [''-1'']
   \<and> \<not> validateAmountsForOnChain
         [''115792089237316195423570985008687907853269984665640564039457584007913129639936'']
   \<and> validateAmountsForOnChain [''0'']"
proof (intro conjI)
  have "(case BigInt a of None \<Rightarrow> False | Some v \<Rightarrow> 0 \<le> v \<and> v \<le> MAX_UINT256) \<longleftrightarrow>
          (\<exists>v. reads_integer a v \<and> 0 \<le> v \<and> v \<le> 2 ^ 256 - 1)" for a
    by (cases "BigInt a") (simp_all add: BigInt_reads [symmetric] MAX_UINT256_def)
  then show "validateAmountsForOnChain xs \<longleftrightarrow>
      (\<forall>a \<in> set xs. \<exists>v. reads_integer a v \<and> 0 \<le> v \<and> v \<le> 2 ^ 256 - 1)"
    by (simp add: validateAmountsForOnChain_all list_all_iff)
  show "\<not> validateAmountsForOnChain [''-1'']"
    by code_simp
  show "\<not> validateAmountsForOnChain
         [''115792089237316195423570985008687907853269984665640564039457584007913129639936'']"
    by code_simp
  show "validateAmountsForOnChain [''0'']"
    by code_simp
qed

theorem validateAmountsForOnChain_reads_witness:
  "reads_integer ''0'' 0 \<and> reads_integer '' 42 '' 42 \<and> reads_integer ''0x10'' 16
   \<and> validateAmountsForOnChain [''0'', '' 42 '', ''0x10'']
   \<and> \<not> validateAmountsForOnChain [''7'', ''1.5'']"
proof -
  have "BigInt ''0'' = Some 0" "BigInt '' 42 '' = Some 42" "BigInt ''0x10'' = Some 16"
    by code_simp+
  then have reads: "reads_integer ''0'' 0" "reads_integer '' 42 '' 42" "reads_integer ''0x10'' 16"
    by (simp_all add: BigInt_reads)
  then have "\<forall>a \<in> set [''0'', '' 42 '', ''0x10''].
      \<exists>v. reads_integer a v \<and> 0 \<le> v \<and> v \<le> 2 ^ 256 - 1"
    by auto
  with validateAmountsForOnChain_reads [of "[''0'', '' 42 '', ''0x10'']"]
  have good: "validateAmountsForOnChain [''0'', '' 42 '', ''0x10'']"
    by blast
  have "BigInt ''1.5'' = None"
    by code_simp
  then have "\<not> (\<exists>v. reads_integer ''1.5'' v)"
    by (simp add: BigInt_reads [symmetric])
  then have "\<not> (\<forall>a \<in> set [''7'', ''1.5''].
      \<exists>v. reads_integer a v \<and> 0 \<le> v \<and> v \<le> 2 ^ 256 - 1)"
    by simp
  with validateAmountsForOnChain_reads [of "[''7'', ''1.5'']"]
  have "\<not> validateAmountsForOnChain [''7'', ''1.5'']"
    by blast
  with reads good show ?thesis
    by blast
qed

subsection \<open>Addition and subtraction of base units\<close>

lemma is_base_units_BigInt: "is_base_units s \<Longrightarrow> BigInt s = Some (radix_value 10 s)"
  by (simp add: is_base_units_def all_digits_BigInt)

lemma is_base_units_nonneg: "is_base_units s \<Longrightarrow> 0 \<le> radix_value 10 s"
  by (simp add: is_base_units_def all_digits_def radix_value_nonneg)

lemma all_digits_zero: "all_digits ''0''"
  by (simp add: all_digits_def is_digit_def)

lemma subtractBaseUnits_digits: "subtractBaseUnits a b = Inr s \<Longrightarrow> all_digits s"
  by (auto simp: subtractBaseUnits_def Let_def all_digits_toString all_digits_zero
      split: option.splits if_splits)

text \<open>
  C7. For base-unit strings \<open>a\<close> and \<open>b\<close> (digits only, no superfluous leading zero),
  adding \<open>b\<close> to \<open>a\<close> and subtracting \<open>b\<close> again gives back \<open>a\<close>. Subtraction never gives
  a negative result: whatever it returns is a digit string, and it returns \<open>''0''\<close>
  whenever the integer value of \<open>b\<close> exceeds that of \<open>a\<close>.
\<close>

theorem subtract_add_inverse:
  "(is_base_units a \<and> is_base_units b \<longrightarrow>
      (\<exists>s. addBaseUnits a b = Inr s \<and> subtractBaseUnits s b = Inr a))
   \<and> (\<forall>x y. BigInt a = Some x \<and> BigInt b = Some y \<and> x < y \<longrightarrow>
          subtractBaseUnits a b = Inr ''0'')
   \<and> (\<forall>s. subtractBaseUnits a b = Inr s \<longrightarrow> all_digits s)"
proof (intro conjI impI allI)
  assume ab: "is_base_units a \<and> is_base_units b"
  define x where "x = radix_value 10 a"
  define y where "y = radix_value 10 b"
  from ab have pa: "BigInt a = Some x" and pb: "BigInt b = Some y"
    by (simp_all add: x_def y_def is_base_units_BigInt)
  from ab have nonneg: "0 \<le> x" "0 \<le> y"
    by (simp_all add: x_def y_def is_base_units_nonneg)
  have sum: "addBaseUnits a b = Inr (BigInt_toString (x + y))"
    by (simp add: addBaseUnits_def pa pb)
  have "BigInt (BigInt_toString (x + y)) = Some (x + y)"
    using nonneg by (simp add: BigInt_toString_nonneg)
  then have "subtractBaseUnits (BigInt_toString (x + y)) b = Inr (BigInt_toString x)"
    using nonneg by (simp add: subtractBaseUnits_def pb Let_def)
  moreover have "BigInt_toString x = a"
    using ab pa by (simp add: toString_BigInt)
  ultimately show "\<exists>s. addBaseUnits a b = Inr s \<and> subtractBaseUnits s b = Inr a"
    using sum by simp
next
  fix x y
  assume "BigInt a = Some x \<and> BigInt b = Some y \<and> x < y"
  then show "subtractBaseUnits a b = Inr ''0''"
    by (simp add: subtractBaseUnits_def Let_def)
next
  fix s
  assume "subtractBaseUnits a b = Inr s"
  then show "all_digits s"
    by (rule subtractBaseUnits_digits)
qed

theorem subtract_add_inverse_witness:
  "is_base_units ''12'' \<and> is_base_units ''5''
   \<and> addBaseUnits ''12'' ''5'' = Inr ''17'' \<and> subtractBaseUnits ''17'' ''5'' = Inr ''12''
   \<and> BigInt ''5'' = Some 5 \<and> BigInt ''12'' = Some 12
   \<and> subtractBaseUnits ''5'' ''12'' = Inr ''0'' \<and> all_digits ''0''"
proof -
  have base: "is_base_units ''12''" "is_base_units ''5''"
    by code_simp+
  have sum: "addBaseUnits ''12'' ''5'' = Inr ''17''"
    by code_simp
  have vals: "BigInt ''5'' = Some 5" "BigInt ''12'' = Some 12"
    by code_simp+
  from subtract_add_inverse [of "''12''" "''5''"] base sum
  have inv: "subtractBaseUnits ''17'' ''5'' = Inr ''12''"
    by auto
  from subtract_add_inverse [of "''5''" "''12''"] vals
  have floor: "subtractBaseUnits ''5'' ''12'' = Inr ''0''"
    by auto
  with subtract_add_inverse [of "''5''" "''12''"]
  have "all_digits ''0''"
    by blast
  with base sum vals inv floor show ?thesis
    by simp
qed

subsection \<open>Reconciliation\<close>

lemma toBaseUnits_digits: "toBaseUnits a d = Inr b \<Longrightarrow> all_digits b"
  by (simp add: toBaseUnits_def Let_def split: if_splits)

lemma base_units_value_Inr: "all_digits b \<Longrightarrow> base_units_value (Inr b) = radix_value 10 b"
  by (simp add: base_units_value_def all_digits_BigInt)

lemma base_units_value_nonneg: "0 \<le> base_units_value (toBaseUnits a d)"
proof (cases "toBaseUnits a d")
  case (Inl e)
  then show ?thesis by (simp add: base_units_value_def)
next
  case (Inr b)
  then have "all_digits b" by (rule toBaseUnits_digits)
  with Inr show ?thesis
    by (simp add: base_units_value_Inr radix_value_nonneg all_digits_def)
qed

lemma sum_base_units_nonneg: "0 \<le> (\<Sum>a\<leftarrow>as. base_units_value (toBaseUnits a d))"
  by (induction as) (simp_all add: base_units_value_nonneg)

lemma toString_zero: "BigInt_toString 0 = ''0''"
  by code_simp

lemma accumulate_sum:
  assumes "0 \<le> t" and "\<forall>a \<in> set as. \<exists>b. toBaseUnits a d = Inr b"
  shows "accumulate as d (BigInt_toString t) =
           Inr (BigInt_toString (t + (\<Sum>a\<leftarrow>as. base_units_value (toBaseUnits a d))))"
  using assms
proof (induction as arbitrary: t)
  case Nil
  then show ?case by simp
next
  case (Cons a as)
  then obtain b where conv: "toBaseUnits a d = Inr b" by auto
  then have digits: "all_digits b" by (rule toBaseUnits_digits)
  define v where "v = radix_value 10 b"
  have v: "BigInt b = Some v" "0 \<le> v" "base_units_value (toBaseUnits a d) = v"
    using digits conv
    by (simp_all add: v_def all_digits_BigInt radix_value_nonneg all_digits_def
        base_units_value_Inr)
  have step: "addBaseUnits (BigInt_toString t) b = Inr (BigInt_toString (t + v))"
    using Cons.prems(1) v by (simp add: addBaseUnits_def BigInt_toString_nonneg)
  have "accumulate as d (BigInt_toString (t + v)) =
          Inr (BigInt_toString (t + v + (\<Sum>a\<leftarrow>as. base_units_value (toBaseUnits a d))))"
    using Cons.prems v by (intro Cons.IH) simp_all
  moreover have "base_units_value (Inr b) = v"
    using v conv by simp
  ultimately show ?case
    by (simp add: conv step add.assoc)
qed

lemma accumulate_from_zero:
  assumes "\<forall>a \<in> set as. \<exists>b. toBaseUnits a d = Inr b"
  shows "accumulate as d ''0'' =
           Inr (BigInt_toString (\<Sum>a\<leftarrow>as. base_units_value (toBaseUnits a d)))"
  using accumulate_sum [of 0 as d] assms by (simp add: toString_zero)

lemma accumulate_fails:
  assumes "\<exists>a \<in> set as. \<exists>e. toBaseUnits a d = Inl e"
  shows "\<exists>e. accumulate as d t = Inl e"
  using assms
proof (induction as arbitrary: t)
  case Nil
  then show ?case by simp
next
  case (Cons a as)
  then show ?case
    by (cases "toBaseUnits a d"; cases "addBaseUnits t (projr (toBaseUnits a d))") auto
qed

lemma remaining_floor:
  assumes "0 \<le> E" "0 \<le> C"
  shows "subtractBaseUnits (BigInt_toString E) (BigInt_toString C) =
           Inr (BigInt_toString (max 0 (E - C)))"
  using assms
  by (simp add: subtractBaseUnits_def BigInt_toString_nonneg Let_def toString_zero max_def)

lemma compare_with_zero:
  assumes "0 \<le> r"
  shows "compareBaseUnits (BigInt_toString r) ''0'' = Inr (if 0 < r then 1 else 0)"
proof -
  have "BigInt ''0'' = Some 0" by code_simp
  with assms show ?thesis
    by (simp add: compareBaseUnits_def BigInt_toString_nonneg)
qed

lemma performCalculations_sums:
  assumes "\<forall>r \<in> set ps. \<exists>b. toBaseUnits (ClaimProof.amount r) d = Inr b"
    and "\<forall>h \<in> set cs. of_campaign c h \<longrightarrow> (\<exists>b. toBaseUnits (ClaimReward.amount h) d = Inr b)"
  defines "E \<equiv> (\<Sum>r\<leftarrow>ps. base_units_value (toBaseUnits (ClaimProof.amount r) d))"
    and "C \<equiv> (\<Sum>h\<leftarrow>filter (of_campaign c) cs.
                  base_units_value (toBaseUnits (ClaimReward.amount h) d))"
  shows "performCalculations ps cs c d =
           Inr \<lparr>totalEligible = BigInt_toString E, totalClaimed = BigInt_toString C,
                remaining = BigInt_toString (max 0 (E - C)), canClaim = (0 < max 0 (E - C))\<rparr>"
proof -
  have E: "calculateTotalEligible ps d = Inr (BigInt_toString E)"
    using accumulate_from_zero [of "map ClaimProof.amount ps" d] assms(1)
    by (simp add: calculateTotalEligible_def E_def comp_def)
  have C: "calculateTotalClaimed cs c d = Inr (BigInt_toString C)"
    using accumulate_from_zero [of "map ClaimReward.amount (filter (of_campaign c) cs)" d]
      assms(2)
    by (simp add: calculateTotalClaimed_def C_def comp_def of_campaign_def [abs_def])
  have nonneg: "0 \<le> E" "0 \<le> C"
    using sum_base_units_nonneg [of d "map ClaimProof.amount ps"]
      sum_base_units_nonneg [of d "map ClaimReward.amount (filter (of_campaign c) cs)"]
    by (simp_all add: E_def C_def comp_def)
  have R: "calculateRemaining (BigInt_toString E) (BigInt_toString C) =
             Inr (BigInt_toString (max 0 (E - C)))"
    using nonneg by (simp add: calculateRemaining_def remaining_floor)
  have cmp: "compareBaseUnits (BigInt_toString (max 0 (E - C))) ''0'' =
               Inr (if 0 < max 0 (E - C) then 1 else 0)"
    by (rule compare_with_zero) simp
  show ?thesis
    by (auto simp: performCalculations_def E C R cmp)
qed

lemma performCalculations_raises:
  assumes "\<exists>r \<in> set ps. \<exists>e. toBaseUnits (ClaimProof.amount r) d = Inl e"
  shows "performCalculations ps cs c d = Inl SmartRewardsError"
proof -
  from assms have "\<exists>a \<in> set (map ClaimProof.amount ps). \<exists>e. toBaseUnits a d = Inl e"
    by auto
  from accumulate_fails [OF this, of "''0''"] show ?thesis
    by (auto simp: performCalculations_def calculateTotalEligible_def)
qed

text \<open>
  C1. Take a precision \<open>d\<close> between 0 and 77, eligibility records and historical claims
  such that every conversion the sums mention returns. Then \<^verbatim>\<open>performCalculations\<close>
  returns: as \<open>totalEligible\<close> the sum of \<open>toBaseUnits (amount r) d\<close> over all
  eligibility records; as \<open>totalClaimed\<close> the sum of \<open>toBaseUnits (amount h) d\<close> over
  exactly the historical claims whose campaign field is numerically the target campaign;
  as \<open>remaining\<close> their difference floored at zero; and \<open>canClaim\<close> is true exactly when
  \<open>remaining\<close> is greater than zero. For eligibility amounts 10 and 5, one historical
  claim of 3 on campaign 1, target campaign 1 and precision 0 the result is 15, 3, 12, true.
\<close>

theorem performCalculations_reconciles:
  "(0 \<le> d \<and> d \<le> 77
    \<and> (\<forall>r \<in> set ps. \<exists>b. toBaseUnits (ClaimProof.amount r) d = Inr b)
    \<and> (\<forall>h \<in> set cs. of_campaign c h \<longrightarrow> (\<exists>b. toBaseUnits (ClaimReward.amount h) d = Inr b))
    \<longrightarrow>
      (let E = (\<Sum>r\<leftarrow>ps. base_units_value (toBaseUnits (ClaimProof.amount r) d));
           C = (\<Sum>h\<leftarrow>filter (of_campaign c) cs.
                  base_units_value (toBaseUnits (ClaimReward.amount h) d))
       in performCalculations ps cs c d =
            Inr \<lparr>totalEligible = BigInt_toString E, totalClaimed = BigInt_toString C,
                 remaining = BigInt_toString (max 0 (E - C)),
                 canClaim = (0 < max 0 (E - C))\<rparr>))
   \<and> performCalculations
         [p\<lparr>ClaimProof.amount := ''10''\<rparr>, q\<lparr>ClaimProof.amount := ''5''\<rparr>]
         [h\<lparr>ClaimReward.amount := ''3'', campaign := ''1''\<rparr>] 1 0 =
       Inr \<lparr>totalEligible = ''15'', totalClaimed = ''3'', remaining = ''12'', canClaim = True\<rparr>"
proof (intro conjI impI)
  assume "0 \<le> d \<and> d \<le> 77
    \<and> (\<forall>r \<in> set ps. \<exists>b. toBaseUnits (ClaimProof.amount r) d = Inr b)
    \<and> (\<forall>h \<in> set cs. of_campaign c h \<longrightarrow> (\<exists>b. toBaseUnits (ClaimReward.amount h) d = Inr b))"
  then show "let E = (\<Sum>r\<leftarrow>ps. base_units_value (toBaseUnits (ClaimProof.amount r) d));
           C = (\<Sum>h\<leftarrow>filter (of_campaign c) cs.
                  base_units_value (toBaseUnits (ClaimReward.amount h) d))
       in performCalculations ps cs c d =
            Inr \<lparr>totalEligible = BigInt_toString E, totalClaimed = BigInt_toString C,
                 remaining = BigInt_toString (max 0 (E - C)),
                 canClaim = (0 < max 0 (E - C))\<rparr>"
    unfolding Let_def by (intro performCalculations_sums) simp_all
next
  have conv: "toBaseUnits ''10'' 0 = Inr ''10''" "toBaseUnits ''5'' 0 = Inr ''5''"
    "toBaseUnits ''3'' 0 = Inr ''3''"
    by code_simp+
  have sums: "addBaseUnits ''0'' ''10'' = Inr ''10''" "addBaseUnits ''10'' ''5'' = Inr ''15''"
    "addBaseUnits ''0'' ''3'' = Inr ''3''"
    by code_simp+
  have rest: "subtractBaseUnits ''15'' ''3'' = Inr ''12''" "compareBaseUnits ''12'' ''0'' = Inr 1"
    by code_simp+
  have same: "js_strict_eq (Number_of_string ''1'') (Num (of_int 1))"
    by code_simp
  show "performCalculations
         [p\<lparr>ClaimProof.amount := ''10''\<rparr>, q\<lparr>ClaimProof.amount := ''5''\<rparr>]
         [h\<lparr>ClaimReward.amount := ''3'', campaign := ''1''\<rparr>] 1 0 =
       Inr \<lparr>totalEligible = ''15'', totalClaimed = ''3'', remaining = ''12'', canClaim = True\<rparr>"
    using same
    by (simp add: performCalculations_def calculateTotalEligible_def calculateTotalClaimed_def
        calculateRemaining_def conv sums rest)
qed

theorem performCalculations_reconciles_witness:
  "performCalculations
     [mk_proof ''0xab'' 7 ''1.5'' [''0x01''], mk_proof ''0xab'' 7 ''2.25'' [''0x02'']]
     [mk_claim ''0xab'' ''0.5'' ''7'', mk_claim ''0xab'' ''9'' ''8''] 7 2 =
   Inr \<lparr>totalEligible = ''375'', totalClaimed = ''50'', remaining = ''325'', canClaim = True\<rparr>"
proof -
  let ?ps = "[mk_proof ''0xab'' 7 ''1.5'' [''0x01''], mk_proof ''0xab'' 7 ''2.25'' [''0x02'']]"
  let ?cs = "[mk_claim ''0xab'' ''0.5'' ''7'', mk_claim ''0xab'' ''9'' ''8'']"
  have conv: "toBaseUnits ''1.5'' 2 = Inr ''150''" "toBaseUnits ''2.25'' 2 = Inr ''225''"
    "toBaseUnits ''0.5'' 2 = Inr ''50''"
    by code_simp+
  have vals: "BigInt ''150'' = Some 150" "BigInt ''225'' = Some 225" "BigInt ''50'' = Some 50"
    by code_simp+
  have camp: "of_campaign 7 (mk_claim ''0xab'' ''0.5'' ''7'')"
    "\<not> of_campaign 7 (mk_claim ''0xab'' ''9'' ''8'')"
    by code_simp+
  have strs: "BigInt_toString 375 = ''375''" "BigInt_toString 50 = ''50''"
    "BigInt_toString 325 = ''325''"
    by code_simp+
  have hyps: "(0::int) \<le> 2 \<and> (2::int) \<le> 77
    \<and> (\<forall>r \<in> set ?ps. \<exists>b. toBaseUnits (ClaimProof.amount r) 2 = Inr b)
    \<and> (\<forall>h \<in> set ?cs. of_campaign 7 h \<longrightarrow> (\<exists>b. toBaseUnits (ClaimReward.amount h) 2 = Inr b))"
    using camp by (simp add: conv mk_proof_def mk_claim_def)
  from performCalculations_reconciles [of 2 ?ps ?cs 7] hyps
  show ?thesis
    using camp by (simp add: Let_def conv vals strs base_units_value_def mk_proof_def mk_claim_def)
qed

text \<open>
  C10. For every campaign and every precision between 0 and 77, \<^verbatim>\<open>performCalculations\<close>
  on no eligibility records and no historical claims does not raise: it returns the totals
  \<open>''0''\<close>, \<open>''0''\<close>, the remaining amount \<open>''0''\<close> and \<open>canClaim = False\<close>.
\<close>

theorem performCalculations_empty:
  "0 \<le> d \<and> d \<le> 77 \<longrightarrow>
     performCalculations [] [] c d =
       Inr \<lparr>totalEligible = ''0'', totalClaimed = ''0'', remaining = ''0'', canClaim = False\<rparr>"
proof -
  have "subtractBaseUnits ''0'' ''0'' = Inr ''0''" "compareBaseUnits ''0'' ''0'' = Inr 0"
    by code_simp+
  then show ?thesis
    by (simp add: performCalculations_def calculateTotalEligible_def calculateTotalClaimed_def
        calculateRemaining_def)
qed

theorem performCalculations_empty_witness:
  "(0::int) \<le> 18 \<and> (18::int) \<le> 77
   \<and> performCalculations [] [] 5 18 =
       Inr \<lparr>totalEligible = ''0'', totalClaimed = ''0'', remaining = ''0'', canClaim = False\<rparr>"
  using performCalculations_empty [of 18 5] by simp

subsection \<open>Malformed input to the converter\<close>

lemma toBaseUnits_precision: "d < 0 \<or> 77 < d \<Longrightarrow> toBaseUnits s d = Inl SmartRewardsError"
  by (auto simp: toBaseUnits_def)

lemma toBaseUnits_empty: "toBaseUnits [] d = Inl SmartRewardsError"
  by (simp add: toBaseUnits_def)

lemma toBaseUnits_no_number: "parseFloat s = NaN \<Longrightarrow> toBaseUnits s d = Inl SmartRewardsError"
  by (simp add: toBaseUnits_def isNaN_def)

text \<open>
  C3. \<^verbatim>\<open>toBaseUnits\<close> is claimed to raise for every string that is not a well-formed
  decimal, a string with more than one dot among them, and never to return a best-effort
  result. On \<^verbatim>\<open>"1.2.3"\<close> with precision 2 it returns \<^verbatim>\<open>"120"\<close>: \<^verbatim>\<open>parseFloat\<close>
  accepts the prefix \<^verbatim>\<open>1.2\<close>, only the first two parts of the split are read, and the
  third is dropped. On \<^verbatim>\<open>"1.5abc"\<close> with precision 1 it returns \<^verbatim>\<open>"15"\<close>: the
  fraction is cut to one character before the digit test.
\<close>

theorem toBaseUnits_accepts_malformed:
  "toBaseUnits ''1.2.3'' 2 = Inr ''120'' \<and> toBaseUnits ''1.5abc'' 1 = Inr ''15''"
  by code_simp

subsection \<open>Validation of eligibility records\<close>

lemma validateClaimProofs_raises_iff:
  "(\<exists>e. validateClaimProofs ps u c = Inl e) \<longleftrightarrow>
     (\<exists>p \<in> set ps.
        toLowerCase (ClaimProof.user p) \<noteq> toLowerCase u \<or> ClaimProof.campaignId p \<noteq> c
        \<or> proofElements p = [] \<or> ClaimProof.amount p = []
        \<or> js_le (parseFloat (ClaimProof.amount p)) (Num 0))"
  by (induction ps) auto

text \<open>
  C5. \<^verbatim>\<open>validateClaimProofs\<close> is claimed to raise whenever a record's amount does not
  parse to a strictly positive number. For the amount \<^verbatim>\<open>"abc"\<close> \<^verbatim>\<open>parseFloat\<close> gives
  not-a-number, the test \<^verbatim>\<open>parseFloat(amount) <= 0\<close> is false, and the batch passes.
\<close>

theorem validateClaimProofs_accepts_NaN:
  "parseFloat ''abc'' = NaN
   \<and> validateClaimProofs [mk_proof ''0xAb'' 7 ''abc'' [''0x01'']] ''0xab'' 7 = Inr ()"
  by code_simp

subsection \<open>Claim arguments\<close>

lemma push_proofs_maps:
  "push_proofs ps acc = Inr args \<Longrightarrow>
     users args = users acc @ map ClaimProof.user ps
     \<and> campaignIds args = campaignIds acc @ map ClaimProof.campaignId ps
     \<and> amounts args = amounts acc @ map ClaimProof.amount ps
     \<and> proofs args = proofs acc @ map proofElements ps"
proof (induction ps arbitrary: acc)
  case Nil
  then show ?case by simp
next
  case (Cons p ps)
  from Cons.prems have ok: "\<not> (ClaimProof.user p = [] \<or> proofElements p = [])"
    by (auto split: if_splits)
  with Cons.prems have
    "push_proofs ps
       \<lparr>users = users acc @ [ClaimProof.user p],
        campaignIds = campaignIds acc @ [ClaimProof.campaignId p],
        amounts = amounts acc @ [ClaimProof.amount p],
        proofs = proofs acc @ [proofElements p]\<rparr> = Inr args"
    by simp
  from Cons.IH [OF this] show ?case by simp
qed

lemma push_proofs_fails:
  "\<exists>p \<in> set ps. ClaimProof.user p = [] \<or> proofElements p = [] \<Longrightarrow>
     push_proofs ps acc = Inl ClaimError"
  by (induction ps arbitrary: acc) auto

lemma validateAmountsForOnChain_member:
  "validateAmountsForOnChain as \<Longrightarrow> a \<in> set as \<Longrightarrow> validateAmountsForOnChain [a]"
  by (auto simp: validateAmountsForOnChain_all list_all_iff)

text \<open>
  C4. For a list of \<open>N\<close> eligibility records \<^verbatim>\<open>prepareClaimArgs\<close> either returns four
  sequences of length \<open>N\<close> whose \<open>i\<close>-th elements are the user, campaign, amount and proof
  of the \<open>i\<close>-th record, with amounts that pass \<^verbatim>\<open>validateAmountsForOnChain\<close>, or it
  raises. It raises when a record has no user, no proof element or an amount that fails the
  on-chain bound. When it raises, \<^verbatim>\<open>claimBatch\<close> and \<^verbatim>\<open>claimSingle\<close> return that error
  without calling the contract: the state of the chain is unchanged whatever the call
  would do.
\<close>

theorem prepareClaimArgs_parallel:
  "(\<forall>args. prepareClaimArgs ps = Inr args \<longrightarrow>
      length (users args) = length ps \<and> length (campaignIds args) = length ps
      \<and> length (amounts args) = length ps \<and> length (proofs args) = length ps
      \<and> (\<forall>i < length ps.
            users args ! i = ClaimProof.user (ps ! i)
            \<and> campaignIds args ! i = ClaimProof.campaignId (ps ! i)
            \<and> amounts args ! i = ClaimProof.amount (ps ! i)
            \<and> proofs args ! i = proofElements (ps ! i))
      \<and> validateAmountsForOnChain (amounts args))
   \<and> ((\<exists>p \<in> set ps. ClaimProof.user p = [] \<or> proofElements p = []
                     \<or> \<not> validateAmountsForOnChain [ClaimProof.amount p]) \<longrightarrow>
        (\<exists>e. prepareClaimArgs ps = Inl e))
   \<and> (\<forall>e. prepareClaimArgs ps = Inl e \<longrightarrow>
        claimBatch executeClaim chain ps w = (Inl e, w)
        \<and> (\<forall>p. ps = [p] \<longrightarrow> claimSingle executeClaim chain p w = (Inl e, w)))"
proof (intro conjI allI impI)
  fix args
  assume ret: "prepareClaimArgs ps = Inr args"
  then obtain pushed: "push_proofs ps \<lparr>users = [], campaignIds = [], amounts = [], proofs = []\<rparr> = Inr args"
    and valid: "validateAmountsForOnChain (amounts args)"
    by (auto simp: prepareClaimArgs_def split: if_splits sum.splits)
  from push_proofs_maps [OF pushed]
  have maps: "users args = map ClaimProof.user ps"
    "campaignIds args = map ClaimProof.campaignId ps"
    "amounts args = map ClaimProof.amount ps" "proofs args = map proofElements ps"
    by simp_all
  show "length (users args) = length ps" "length (campaignIds args) = length ps"
    "length (amounts args) = length ps" "length (proofs args) = length ps"
    by (simp_all add: maps)
  show "validateAmountsForOnChain (amounts args)"
    by (rule valid)
  fix i
  assume "i < length ps"
  then show "users args ! i = ClaimProof.user (ps ! i)"
    "campaignIds args ! i = ClaimProof.campaignId (ps ! i)"
    "amounts args ! i = ClaimProof.amount (ps ! i)" "proofs args ! i = proofElements (ps ! i)"
    by (simp_all add: maps)
next
  assume bad: "\<exists>p \<in> set ps. ClaimProof.user p = [] \<or> proofElements p = []
                     \<or> \<not> validateAmountsForOnChain [ClaimProof.amount p]"
  show "\<exists>e. prepareClaimArgs ps = Inl e"
  proof (cases "prepareClaimArgs ps")
    case (Inl e)
    then show ?thesis by simp
  next
    case (Inr args)
    then obtain pushed: "push_proofs ps \<lparr>users = [], campaignIds = [], amounts = [], proofs = []\<rparr> = Inr args"
      and valid: "validateAmountsForOnChain (amounts args)"
      by (auto simp: prepareClaimArgs_def split: if_splits sum.splits)
    from push_proofs_maps [OF pushed] have am: "amounts args = map ClaimProof.amount ps"
      by simp
    from bad obtain p where p: "p \<in> set ps"
      and "ClaimProof.user p = [] \<or> proofElements p = []
            \<or> \<not> validateAmountsForOnChain [ClaimProof.amount p]"
      by blast
    then consider "ClaimProof.user p = [] \<or> proofElements p = []"
      | "\<not> validateAmountsForOnChain [ClaimProof.amount p]"
      by blast
    then show ?thesis
    proof cases
      case 1
      with p have "push_proofs ps \<lparr>users = [], campaignIds = [], amounts = [], proofs = []\<rparr> = Inl ClaimError"
        by (intro push_proofs_fails) blast
      with pushed show ?thesis by simp
    next
      case 2
      moreover have "validateAmountsForOnChain [ClaimProof.amount p]"
        using valid p by (intro validateAmountsForOnChain_member [of "amounts args"]) (simp_all add: am)
      ultimately show ?thesis by simp
    qed
  qed
next
  fix e
  assume "prepareClaimArgs ps = Inl e"
  then show "claimBatch executeClaim chain ps w = (Inl e, w)"
    by (auto simp: claimBatch_def prepareClaimArgs_def)
next
  fix e p
  assume "prepareClaimArgs ps = Inl e" "ps = [p]"
  then show "claimSingle executeClaim chain p w = (Inl e, w)"
    by (simp add: claimSingle_def)
qed

theorem prepareClaimArgs_parallel_witness:
  "prepareClaimArgs
     [mk_proof ''0xab'' 7 ''150'' [''0x01''], mk_proof ''0xcd'' 8 ''225'' [''0x02'', ''0x03'']] =
     Inr \<lparr>users = [''0xab'', ''0xcd''], campaignIds = [7, 8], amounts = [''150'', ''225''],
          proofs = [[''0x01''], [''0x02'', ''0x03'']]\<rparr>
   \<and> validateAmountsForOnChain [''150'', ''225'']
   \<and> \<not> validateAmountsForOnChain [''1.5'']
   \<and> (\<exists>e. prepareClaimArgs [mk_proof ''0xab'' 7 ''1.5'' [''0x01'']] = Inl e
          \<and> claimBatch (\<lambda>chain args w. (Inr (), Suc w)) 1
                [mk_proof ''0xab'' 7 ''1.5'' [''0x01'']] (0::nat) = (Inl e, 0)
          \<and> claimSingle (\<lambda>chain args w. (Inr (), Suc w)) 1
                (mk_proof ''0xab'' 7 ''1.5'' [''0x01'']) (0::nat) = (Inl e, 0))"
proof -
  let ?good =
    "[mk_proof ''0xab'' 7 ''150'' [''0x01''], mk_proof ''0xcd'' 8 ''225'' [''0x02'', ''0x03'']]"
  let ?args =
    "\<lparr>users = [''0xab'', ''0xcd''], campaignIds = [7, 8], amounts = [''150'', ''225''],
      proofs = [[''0x01''], [''0x02'', ''0x03'']]\<rparr>"
  let ?bad = "mk_proof ''0xab'' 7 ''1.5'' [''0x01'']"
  let ?call = "\<lambda>(chain::int) (args::SmartRewarderClaimArgs) (w::nat). (Inr () :: error + unit, Suc w)"
  have ret: "prepareClaimArgs ?good = Inr ?args"
    by code_simp
  from prepareClaimArgs_parallel [of ?good ?call 1 0] ret
  have "validateAmountsForOnChain (amounts ?args)"
    by blast
  then have good: "validateAmountsForOnChain [''150'', ''225'']"
    by simp
  have unsafe: "\<not> validateAmountsForOnChain [''1.5'']"
    by code_simp
  then have "\<exists>p \<in> set [?bad]. ClaimProof.user p = [] \<or> proofElements p = []
                     \<or> \<not> validateAmountsForOnChain [ClaimProof.amount p]"
    by (simp add: mk_proof_def)
  with prepareClaimArgs_parallel [of "[?bad]" ?call 1 0]
  obtain e where raised: "prepareClaimArgs [?bad] = Inl e"
    by blast
  with prepareClaimArgs_parallel [of "[?bad]" ?call 1 0]
  have "claimBatch ?call 1 [?bad] 0 = (Inl e, 0)" "claimSingle ?call 1 ?bad 0 = (Inl e, 0)"
    by blast+
  with ret good unsafe raised show ?thesis
    by blast
qed

subsection \<open>Pagination\<close>

lemma paginate_stops_at_dangling:
  assumes "served fetch n c (pages @ [p])" and "\<forall>r \<in> set pages. continuing r" and "dangling p"
  shows "paginate fetch n c collected =
           Some (Inr (collected @ records_of (pages @ [p])), Suc (n + length pages))"
  using assms
proof (induction pages arbitrary: n c collected)
  case Nil
  then show ?case
    by (subst paginate.simps) (simp add: dangling_def records_of_def)
next
  case (Cons r rs)
  from Cons.prems have reply: "fetch n c = Inr r" and more: "continuing r"
    and rest: "served fetch (Suc n) (endCursor (pageInfo r)) (rs @ [p])"
    by simp_all
  have "paginate fetch (Suc n) (endCursor (pageInfo r)) (collected @ map node (edges r)) =
          Some (Inr ((collected @ map node (edges r)) @ records_of (rs @ [p])),
                Suc (Suc n + length rs))"
    using rest Cons.prems by (intro Cons.IH) simp_all
  with reply more show ?case
    by (subst paginate.simps) (simp add: continuing_def records_of_def)
qed

text \<open>The ordinary end: a page that reports no next page.\<close>

lemma paginate_stops_at_last:
  assumes "served fetch n c (pages @ [p])" and "\<forall>r \<in> set pages. continuing r"
    and "\<not> hasNextPage (pageInfo p)"
  shows "paginate fetch n c collected =
           Some (Inr (collected @ records_of (pages @ [p])), Suc (n + length pages))"
  using assms
proof (induction pages arbitrary: n c collected)
  case Nil
  then show ?case
    by (subst paginate.simps) (simp add: records_of_def)
next
  case (Cons r rs)
  from Cons.prems have reply: "fetch n c = Inr r" and more: "continuing r"
    and rest: "served fetch (Suc n) (endCursor (pageInfo r)) (rs @ [p])"
    by simp_all
  have "paginate fetch (Suc n) (endCursor (pageInfo r)) (collected @ map node (edges r)) =
          Some (Inr ((collected @ map node (edges r)) @ records_of (rs @ [p])),
                Suc (Suc n + length rs))"
    using rest Cons.prems by (intro Cons.IH) simp_all
  with reply more show ?case
    by (subst paginate.simps) (simp add: continuing_def records_of_def)
qed

text \<open>
  The loop has no bound of its own: against a service that names a next page in every reply
  it does not return.
\<close>

lemma paginate_endless:
  assumes endless: "\<And>n c. \<exists>r. fetch n c = Inr r \<and> continuing r"
  shows "paginate fetch n c collected = None"
proof (rule ccontr)
  assume "paginate fetch n c collected \<noteq> None"
  then obtain y where "paginate fetch n c collected = Some y"
    by auto
  then have "fetch = fetch \<longrightarrow> False"
  proof (rule paginate.raw_induct [where P = "\<lambda>f n c collected y. f = fetch \<longrightarrow> False", rotated])
    fix loop f n c collected y
    assume IH: "\<And>f n c collected y. loop f n c collected = Some y \<Longrightarrow> f = fetch \<longrightarrow> False"
      and step: "(case f n c of
          Inl e \<Rightarrow> Some (Inl SmartRewardsError, Suc n)
        | Inr response \<Rightarrow>
            if no_cursor (endCursor (pageInfo response)) \<and> hasNextPage (pageInfo response)
            then Some (Inr (collected @ map node (edges response)), Suc n)
            else if hasNextPage (pageInfo response)
            then loop f (Suc n) (endCursor (pageInfo response))
                   (collected @ map node (edges response))
            else Some (Inr (collected @ map node (edges response)), Suc n)) = Some y"
    show "f = fetch \<longrightarrow> False"
    proof
      assume f: "f = fetch"
      from endless obtain r where r: "fetch n c = Inr r" "continuing r"
        by blast
      with step f have "loop fetch (Suc n) (endCursor (pageInfo r))
                          (collected @ map node (edges r)) = Some y"
        by (simp add: continuing_def)
      from IH [OF this] show False
        by simp
    qed
  qed
  then show False
    by simp
qed

text \<open>Against a service with finitely many pages to give the loop ends.\<close>

lemma paginate_serve_returns: "\<exists>res. paginate (serve pages) n c collected = Some res"
proof (induction "length pages - n" arbitrary: n c collected)
  case 0
  then have "serve pages n c = Inl SmartRewardsError"
    by (simp add: serve_def)
  then show ?case
    by (subst paginate.simps) simp
next
  case (Suc k)
  then have n: "n < length pages" and k: "k = length pages - Suc n"
    by simp_all
  then have reply: "serve pages n c = Inr (pages ! n)"
    by (simp add: serve_def)
  from Suc.hyps(1) [OF k]
  obtain res where "paginate (serve pages) (Suc n) (endCursor (pageInfo (pages ! n)))
                      (collected @ map node (edges (pages ! n))) = Some res"
    by blast
  then show ?case
    by (subst paginate.simps) (simp add: reply)
qed

text \<open>
  C9. For every sequence of pages that a service has to give, the loops of
  \<^verbatim>\<open>fetchAllClaimProofs\<close> and \<^verbatim>\<open>fetchAllHistoricalClaims\<close> end. As soon as a fetched page
  reports a next page but supplies no cursor they stop: they return, without an error,
  exactly the records of the pages fetched so far, that page included, and they have made
  one request per page and none after it.
\<close>

theorem pagination_stops_without_cursor:
  "(\<exists>res. fetchAllClaimProofs (serve proofPages) = Some res)
   \<and> (\<exists>res. fetchAllHistoricalClaims (serve claimPages) = Some res)
   \<and> (served fetchProofs 0 None (pages @ [p]) \<and> (\<forall>r \<in> set pages. continuing r) \<and> dangling p
      \<longrightarrow> fetchAllClaimProofs fetchProofs =
            Some (Inr (records_of (pages @ [p])), length pages + 1))
   \<and> (served fetchClaims 0 None (pages' @ [p']) \<and> (\<forall>r \<in> set pages'. continuing r)
       \<and> dangling p'
      \<longrightarrow> fetchAllHistoricalClaims fetchClaims =
            Some (Inr (records_of (pages' @ [p'])), length pages' + 1))"
  using paginate_stops_at_dangling [of fetchProofs 0 None pages p "[]"]
    paginate_stops_at_dangling [of fetchClaims 0 None pages' p' "[]"]
    paginate_serve_returns [of proofPages 0 None "[]"]
    paginate_serve_returns [of claimPages 0 None "[]"]
  by (simp add: fetchAllClaimProofs_def fetchAllHistoricalClaims_def)

theorem pagination_stops_without_cursor_witness:
  "fetchAllClaimProofs
     (\<lambda>n c. if n = 0
        then Inr \<lparr>totalCount = 3,
                  edges = [\<lparr>edgeCursor = ''a'', node = mk_proof ''0xab'' 7 ''1'' [''0x01'']\<rparr>],
                  pageInfo = \<lparr>endCursor = Some ''a'', hasNextPage = True\<rparr>\<rparr>
        else Inr \<lparr>totalCount = 3,
                  edges = [\<lparr>edgeCursor = ''b'', node = mk_proof ''0xab'' 7 ''2'' [''0x02'']\<rparr>],
                  pageInfo = \<lparr>endCursor = None, hasNextPage = True\<rparr>\<rparr>) =
     Some (Inr [mk_proof ''0xab'' 7 ''1'' [''0x01''], mk_proof ''0xab'' 7 ''2'' [''0x02'']], 2)
   \<and> fetchAllHistoricalClaims
     (\<lambda>n c. Inr \<lparr>totalCount = 1,
                  edges = [\<lparr>edgeCursor = ''a'', node = mk_claim ''0xab'' ''1'' ''7''\<rparr>],
                  pageInfo = \<lparr>endCursor = Some [], hasNextPage = True\<rparr>\<rparr>) =
     Some (Inr [mk_claim ''0xab'' ''1'' ''7''], 1)"
proof -
  let ?p0 = "\<lparr>totalCount = 3,
              edges = [\<lparr>edgeCursor = ''a'', node = mk_proof ''0xab'' 7 ''1'' [''0x01'']\<rparr>],
              pageInfo = \<lparr>endCursor = Some ''a'', hasNextPage = True\<rparr>\<rparr>"
  let ?p1 = "\<lparr>totalCount = 3,
              edges = [\<lparr>edgeCursor = ''b'', node = mk_proof ''0xab'' 7 ''2'' [''0x02'']\<rparr>],
              pageInfo = \<lparr>endCursor = None, hasNextPage = True\<rparr>\<rparr>"
  let ?q0 = "\<lparr>totalCount = 1,
              edges = [\<lparr>edgeCursor = ''a'', node = mk_claim ''0xab'' ''1'' ''7''\<rparr>],
              pageInfo = \<lparr>endCursor = Some [], hasNextPage = True\<rparr>\<rparr>"
  let ?f = "\<lambda>(n::nat) (c::string option). if n = 0 then Inr ?p0 else (Inr ?p1 :: error + ClaimProof Connection)"
  let ?g = "\<lambda>(n::nat) (c::string option). (Inr ?q0 :: error + ClaimReward Connection)"
  have "served ?f 0 None ([?p0] @ [?p1]) \<and> (\<forall>r \<in> set [?p0]. continuing r) \<and> dangling ?p1"
    by (simp add: continuing_def dangling_def no_cursor_def)
  moreover have "served ?g 0 None ([] @ [?q0]) \<and> (\<forall>r \<in> set []. continuing r) \<and> dangling ?q0"
    by (simp add: dangling_def no_cursor_def)
  ultimately show ?thesis
    using pagination_stops_without_cursor [of "[]" "[]" ?f "[?p0]" ?p1 ?g "[]" ?q0]
    by (simp add: records_of_def)
qed

subsection \<open>Conversion there and back\<close>

lemma to_double_not_NaN: "to_double q \<noteq> NaN"
  by (simp add: to_double_def Let_def)

lemma parseFloat_digit_first:
  assumes "s \<noteq> []" and "is_digit (hd s)"
  shows "parseFloat s \<noteq> NaN"
proof -
  from assms obtain c r where s: "s = c # r" and c: "is_digit c"
    by (cases s) auto
  note marks = is_digit_not_marker [OF c]
  have ws: "dropWhile is_ws s = s"
    using s c is_digit_not_ws by simp
  have lit: "str_decimal_literal s = unsigned_decimal s"
    using s marks by (simp add: str_decimal_literal_def)
  have inf: "take 8 s \<noteq> ''Infinity''"
    using s marks by auto
  have ip: "takeWhile is_digit s \<noteq> []"
    using s c by simp
  obtain v rest where "unsigned_decimal s = Some (to_double v, rest)"
    using inf ip by (simp add: unsigned_decimal_def Let_def)
  then show ?thesis
    by (simp add: parseFloat_def ws lit to_double_not_NaN)
qed

lemma split_on_unfold:
  "split_on c s =
     takeWhile (\<lambda>x. x \<noteq> c) s
     # (case dropWhile (\<lambda>x. x \<noteq> c) s of [] \<Rightarrow> [] | x # r \<Rightarrow> split_on c r)"
  by (induction s) (auto split: list.splits)

lemma split_on_absent: "c \<notin> set s \<Longrightarrow> split_on c s = [s]"
  by (induction s) auto

lemma digits_no_dot: "list_all is_digit s \<Longrightarrow> CHR ''.'' \<notin> set s"
  using is_digit_not_marker by (auto simp: list_all_iff)

lemma split_decimal:
  assumes "is_decimal s"
  shows "split_on (CHR ''.'') s = [whole_part s]
         \<or> (\<exists>rest. split_on (CHR ''.'') s = whole_part s # fraction_part s # rest)"
    and "fraction_part s \<noteq> [] \<Longrightarrow>
           (\<exists>rest. split_on (CHR ''.'') s = whole_part s # fraction_part s # rest)"
proof -
  let ?tail = "dropWhile (\<lambda>x. x \<noteq> CHR ''.'') s"
  have unfold: "split_on (CHR ''.'') s =
      whole_part s # (case ?tail of [] \<Rightarrow> [] | x # r \<Rightarrow> split_on (CHR ''.'') r)"
    by (subst split_on_unfold) (simp add: whole_part_def)
  have frac: "?tail \<noteq> [] \<Longrightarrow> split_on (CHR ''.'') (tl ?tail) = [fraction_part s]"
  proof -
    assume "?tail \<noteq> []"
    have "CHR ''.'' \<notin> set (fraction_part s)"
      using assms by (simp add: is_decimal_def digits_no_dot)
    then show ?thesis
      by (simp add: fraction_part_def split_on_absent drop_Suc)
  qed
  show "split_on (CHR ''.'') s = [whole_part s]
         \<or> (\<exists>rest. split_on (CHR ''.'') s = whole_part s # fraction_part s # rest)"
    using unfold frac by (cases ?tail) auto
  show "\<exists>rest. split_on (CHR ''.'') s = whole_part s # fraction_part s # rest"
    if "fraction_part s \<noteq> []"
    using unfold frac that by (cases ?tail) (auto simp: fraction_part_def)
qed
lemma decimal_parts:
  assumes "is_decimal s"
  shows "(case split_on (CHR ''.'') s of [] \<Rightarrow> [] | w # _ \<Rightarrow> w) = whole_part s"
    and "(case split_on (CHR ''.'') s of w # f # _ \<Rightarrow> f | _ \<Rightarrow> []) = fraction_part s"
proof -
  from split_decimal(1) [OF assms] show
    "(case split_on (CHR ''.'') s of [] \<Rightarrow> [] | w # _ \<Rightarrow> w) = whole_part s"
    by auto
  show "(case split_on (CHR ''.'') s of w # f # _ \<Rightarrow> f | _ \<Rightarrow> []) = fraction_part s"
  proof (cases "fraction_part s = []")
    case True
    with split_decimal(1) [OF assms] show ?thesis by auto
  next
    case False
    with split_decimal(2) [OF assms] show ?thesis by auto
  qed
qed

lemma pad_and_cut:
  assumes "0 \<le> d" and "int (length f) \<le> d"
  shows "slice (padEnd f d) 0 d = f @ replicate (nat d - length f) (CHR ''0'')"
proof -
  have len: "length (padEnd f d) = nat d"
    using assms by (simp add: padEnd_def)
  have "slice_index (padEnd f d) 0 = 0" "slice_index (padEnd f d) d = nat d"
    using assms len by (simp_all add: slice_index_def)
  then show ?thesis
    using len by (simp add: slice_def padEnd_def)
qed

lemma all_digits_normalised: "list_all is_digit x \<Longrightarrow> all_digits (normalised x)"
proof -
  assume digits: "list_all is_digit x"
  have "set (dropWhile (\<lambda>c. c = CHR ''0'') x) \<subseteq> set x"
    by (rule set_dropWhileD [THEN subsetI])
  with digits have "list_all is_digit (strip_leading_zeros x)"
    by (auto simp: strip_leading_zeros_def list_all_iff)
  then show ?thesis
    by (simp add: normalised_def all_digits_def is_digit_def)
qed

lemma toBaseUnits_decimal:
  assumes dec: "is_decimal s" and d: "0 \<le> d" "d \<le> 77"
    and short: "int (length (fraction_part s)) \<le> d"
  shows "toBaseUnits s d =
           Inr (normalised (whole_part s @ fraction_part s
                            @ replicate (nat d - length (fraction_part s)) (CHR ''0'')))"
proof -
  from dec have w: "all_digits (whole_part s)" and f: "list_all is_digit (fraction_part s)"
    by (simp_all add: is_decimal_def)
  from w have "whole_part s \<noteq> []" "is_digit (hd (whole_part s))"
    by (simp_all add: all_digits_def all_digits_hd)
  then have first: "s \<noteq> []" "is_digit (hd s)"
    by (cases s; simp add: whole_part_def split: if_splits)+
  then have number: "\<not> isNaN (parseFloat s)"
    by (simp add: isNaN_def parseFloat_digit_first)
  let ?base = "whole_part s @ fraction_part s
                            @ replicate (nat d - length (fraction_part s)) (CHR ''0'')"
  have zero: "is_digit (CHR ''0'')"
    by (simp add: is_digit_def)
  have "list_all is_digit ?base"
    using w f zero by (auto simp: all_digits_def list_all_iff)
  then have ok: "all_digits (normalised ?base)"
    by (rule all_digits_normalised)
  have "toBaseUnits s d =
          (if \<not> all_digits (normalised ?base) then Inl SmartRewardsError
           else Inr (normalised ?base))"
    using first number d
    by (simp add: toBaseUnits_def Let_def decimal_parts [OF dec] pad_and_cut [OF d(1) short]
        normalised_def)
  with ok show ?thesis
    by simp
qed
lemma zeros_replicate:
  "\<forall>x \<in> set g. x = CHR ''0'' \<Longrightarrow> g = replicate (length g) (CHR ''0'')"
  by (induction g) auto

lemma padStart_normalised_fraction:
  assumes "length g = nat d" and "0 < d"
  shows "padStart (normalised g) (d + 1) = CHR ''0'' # g"
proof (cases "strip_leading_zeros g = []")
  case True
  then have "\<forall>x \<in> set g. x = CHR ''0''"
    by (simp add: strip_leading_zeros_def dropWhile_eq_Nil_conv)
  then have "replicate (length g) (CHR ''0'') = g"
    by (rule zeros_replicate [symmetric])
  then have g: "replicate (nat d) (CHR ''0'') = g"
    by (simp only: assms(1))
  have "nat (d + 1) - 1 = nat d"
    using assms by simp
  then have "padStart ''0'' (d + 1) = replicate (nat d) (CHR ''0'') @ ''0''"
    by (simp add: padStart_def)
  also have "\<dots> = CHR ''0'' # replicate (nat d) (CHR ''0'')"
    by (simp add: replicate_append_same)
  also have "\<dots> = CHR ''0'' # g"
    by (simp only: g)
  finally show ?thesis
    using True by (simp add: normalised_def)
next
  case False
  let ?z = "takeWhile (\<lambda>c. c = CHR ''0'') g"
  let ?r = "strip_leading_zeros g"
  have split: "?z @ ?r = g"
    by (simp add: strip_leading_zeros_def)
  have "\<forall>x \<in> set ?z. x = CHR ''0''"
    by (auto dest: set_takeWhileD)
  then have z: "replicate (length ?z) (CHR ''0'') = ?z"
    by (rule zeros_replicate [symmetric])
  have "length (?z @ ?r) = length g"
    by (simp only: split)
  then have "nat (d + 1) - length ?r = Suc (length ?z)"
    using assms by simp
  then have "padStart ?r (d + 1) = replicate (Suc (length ?z)) (CHR ''0'') @ ?r"
    by (simp only: padStart_def)
  also have "\<dots> = CHR ''0'' # (replicate (length ?z) (CHR ''0'') @ ?r)"
    by simp
  also have "\<dots> = CHR ''0'' # g"
    by (simp only: z split)
  finally show ?thesis
    using False by (simp add: normalised_def)
qed

lemma fromBaseUnits_parts:
  assumes digits: "all_digits b" and d: "0 < d" "d \<le> 77"
    and padded: "padStart b (d + 1) = whole @ g" and len: "length g = nat d"
    and whole: "whole \<noteq> []"
  shows "fromBaseUnits b d =
           Inr (whole
                @ (if strip_trailing_zeros g = [] then [] else CHR ''.'' # strip_trailing_zeros g))"
proof -
  have k: "int (length (padStart b (d + 1))) - d = int (length whole)"
    using len d by (simp add: padded)
  have cut: "slice (whole @ g) 0 (int (length whole)) = whole"
    "slice_from (whole @ g) (int (length whole)) = g"
    by (simp_all add: slice_def slice_from_def slice_index_def)
  have guard: "\<not> (b = [] \<or> \<not> all_digits b)" "\<not> (d < 0 \<or> d > 77)" "d \<noteq> 0"
    using digits d by (auto simp: all_digits_def)
  show ?thesis
    unfolding fromBaseUnits_def Let_def k
    by (simp only: guard if_False padded cut whole append_Cons append_Nil) simp
qed

lemma fromBaseUnits_normalised:
  assumes w: "all_digits w" and g: "list_all is_digit g" and len: "length g = nat d"
    and d: "0 < d" "d \<le> 77"
  shows "fromBaseUnits (normalised (w @ g)) d =
           Inr (normalised w
                @ (if strip_trailing_zeros g = [] then [] else CHR ''.'' # strip_trailing_zeros g))"
proof -
  have digits: "all_digits (normalised (w @ g))"
    using w g by (intro all_digits_normalised) (simp add: all_digits_def)
  have parts: "\<exists>whole. whole \<noteq> [] \<and> whole = normalised w
                 \<and> padStart (normalised (w @ g)) (d + 1) = whole @ g"
  proof (cases "strip_leading_zeros w = []")
    case True
    then have "\<forall>x \<in> set w. x = CHR ''0''"
      by (simp add: strip_leading_zeros_def dropWhile_eq_Nil_conv)
    then have "strip_leading_zeros (w @ g) = strip_leading_zeros g"
      by (simp add: strip_leading_zeros_def dropWhile_append2)
    then have "normalised (w @ g) = normalised g"
      by (simp add: normalised_def)
    with True padStart_normalised_fraction [OF len d(1)] show ?thesis
      by (simp add: normalised_def)
  next
    case False
    then obtain x where "x \<in> set w" "x \<noteq> CHR ''0''"
      by (auto simp: strip_leading_zeros_def dropWhile_eq_Nil_conv)
    then have "strip_leading_zeros (w @ g) = strip_leading_zeros w @ g"
      by (simp add: strip_leading_zeros_def dropWhile_append1)
    with False have norm: "normalised (w @ g) = strip_leading_zeros w @ g"
      by (simp add: normalised_def)
    have "nat (d + 1) \<le> length (strip_leading_zeros w @ g)"
      using False len d by (cases "strip_leading_zeros w") simp_all
    then have "padStart (strip_leading_zeros w @ g) (d + 1) = strip_leading_zeros w @ g"
      by (simp add: padStart_def)
    with False norm show ?thesis
      by (simp add: normalised_def)
  qed
  then obtain whole where whole: "whole \<noteq> []" "whole = normalised w"
    and padded: "padStart (normalised (w @ g)) (d + 1) = whole @ g"
    by blast
  from fromBaseUnits_parts [OF digits d padded len whole(1)] whole(2) show ?thesis
    by simp
qed
lemma strip_trailing_padded:
  "strip_trailing_zeros (f @ replicate k (CHR ''0'')) = strip_trailing_zeros f"
proof -
  have "dropWhile (\<lambda>c. c = CHR ''0'') (replicate k (CHR ''0'') @ rev f) =
          dropWhile (\<lambda>c. c = CHR ''0'') (rev f)"
    by (rule dropWhile_append2) simp
  then show ?thesis
    by (simp add: strip_trailing_zeros_def)
qed

lemma round_trip_decimal:
  assumes dec: "is_decimal s" and d: "0 \<le> d" "d \<le> 77"
    and short: "int (length (fraction_part s)) \<le> d"
  shows "\<exists>b. toBaseUnits s d = Inr b \<and> fromBaseUnits b d = Inr (canonical s)"
proof -
  let ?w = "whole_part s"
  let ?f = "fraction_part s"
  let ?g = "?f @ replicate (nat d - length ?f) (CHR ''0'')"
  from dec have w: "all_digits ?w" and f: "list_all is_digit ?f"
    by (simp_all add: is_decimal_def)
  have there: "toBaseUnits s d = Inr (normalised (?w @ ?g))"
    using toBaseUnits_decimal [OF dec d short] by simp
  have canon: "canonical s =
      normalised ?w @ (if strip_trailing_zeros ?f = [] then [] else CHR ''.'' # strip_trailing_zeros ?f)"
    by (simp add: canonical_def normalised_def Let_def)
  show ?thesis
  proof (cases "d = 0")
    case True
    with short have empty: "?f = []"
      by simp
    have "all_digits (normalised ?w)"
      using w by (intro all_digits_normalised) (simp add: all_digits_def)
    then have "fromBaseUnits (normalised ?w) 0 = Inr (normalised ?w)"
      by (simp add: fromBaseUnits_def all_digits_def)
    moreover have "strip_trailing_zeros [] = []"
      by (simp add: strip_trailing_zeros_def)
    ultimately show ?thesis
      using True there by (simp add: canon empty)
  next
    case False
    with d have pos: "0 < d"
      by simp
    have zero: "is_digit (CHR ''0'')"
      by (simp add: is_digit_def)
    have g: "list_all is_digit ?g"
      using f zero by (auto simp: list_all_iff)
    have len: "length ?g = nat d"
      using short d by simp
    have "fromBaseUnits (normalised (?w @ ?g)) d =
            Inr (normalised ?w
                 @ (if strip_trailing_zeros ?g = [] then []
                    else CHR ''.'' # strip_trailing_zeros ?g))"
      by (rule fromBaseUnits_normalised [OF w g len pos d(2)])
    then have "fromBaseUnits (normalised (?w @ ?g)) d = Inr (canonical s)"
      by (simp only: strip_trailing_padded canon)
    with there show ?thesis
      by simp
  qed
qed

text \<open>
  C2. For a precision \<open>d\<close> among 0, 6, 8 and 18 and a non-negative decimal string \<open>s\<close> with
  at most \<open>d\<close> fractional digits, \<^verbatim>\<open>toBaseUnits\<close> returns and \<^verbatim>\<open>fromBaseUnits\<close> of its
  result at the same precision is the canonical form of \<open>s\<close>: leading zeros of the whole
  part and trailing zeros of the fractional part removed, and the dot removed when no
  fractional digit is left.
\<close>

theorem round_trip:
  "d \<in> {0, 6, 8, 18} \<and> is_decimal s \<and> int (length (fraction_part s)) \<le> d \<longrightarrow>
     (\<exists>b. toBaseUnits s d = Inr b \<and> fromBaseUnits b d = Inr (canonical s))"
proof
  assume a: "d \<in> {0, 6, 8, 18} \<and> is_decimal s \<and> int (length (fraction_part s)) \<le> d"
  then have "0 \<le> d" "d \<le> 77"
    by auto
  with a show "\<exists>b. toBaseUnits s d = Inr b \<and> fromBaseUnits b d = Inr (canonical s)"
    by (intro round_trip_decimal) simp_all
qed

theorem round_trip_witness:
  "(6::int) \<in> {0, 6, 8, 18} \<and> is_decimal ''007.50'' \<and> int (length (fraction_part ''007.50'')) \<le> 6
   \<and> toBaseUnits ''007.50'' 6 = Inr ''7500000'' \<and> fromBaseUnits ''7500000'' 6 = Inr ''7.5''
   \<and> canonical ''007.50'' = ''7.5''"
proof -
  have dec: "is_decimal ''007.50''" and short: "int (length (fraction_part ''007.50'')) \<le> 6"
    by code_simp+
  have there: "toBaseUnits ''007.50'' 6 = Inr ''7500000''"
    by code_simp
  have canon: "canonical ''007.50'' = ''7.5''"
    by code_simp
  from round_trip [of 6 "''007.50''"] dec short
  obtain b where "toBaseUnits ''007.50'' 6 = Inr b"
    and "fromBaseUnits b 6 = Inr (canonical ''007.50'')"
    by auto
  with there canon have "fromBaseUnits ''7500000'' 6 = Inr ''7.5''"
    by simp
  with dec short there canon show ?thesis
    by simp
qed

subsection \<open>Rounding to a double\<close>

lemma pow2_powi: "pow2 e = 2 powi e"
  by (simp add: pow2_def power_int_def power_inverse inverse_eq_divide power_one_over)

lemma pow2_pos: "0 < pow2 e"
  by (simp add: pow2_powi)

lemma pow2_add: "pow2 (x + y) = pow2 x * pow2 y"
  by (simp add: pow2_powi power_int_add)

lemma pow2_diff: "pow2 (x - y) = pow2 x / pow2 y"
  by (simp add: pow2_powi power_int_diff)

lemma pow2_nonneg_int: "0 \<le> e \<Longrightarrow> pow2 e = of_int (2 ^ nat e)"
  by (simp add: pow2_def)

lemma bit_length_bounds:
  "0 < n \<Longrightarrow> 1 \<le> bit_length n \<and> 2 ^ nat (bit_length n - 1) \<le> n \<and> n < 2 ^ nat (bit_length n)"
proof (induction n rule: bit_length.induct)
  case (1 n)
  show ?case
  proof (cases "n = 1")
    case True
    have "bit_length 1 = 1"
      by (subst bit_length.simps, simp, subst bit_length.simps, simp)
    with True show ?thesis
      by simp
  next
    case False
    with "1.prems" have half: "0 < n div 2"
      by simp
    define b where "b = bit_length (n div 2)"
    from "1.IH" half "1.prems"
    have IH: "1 \<le> b" "2 ^ nat (b - 1) \<le> n div 2" "n div 2 < 2 ^ nat b"
      by (simp_all add: b_def)
    have bl: "bit_length n = 1 + b"
      using "1.prems" by (subst bit_length.simps) (simp add: b_def)
    have "nat b = Suc (nat (b - 1))"
      using IH(1) by simp
    then have pw: "(2::int) ^ nat b = 2 * 2 ^ nat (b - 1)"
      by (simp only: power_Suc)
    have up: "nat (1 + b) = Suc (nat b)"
      using IH(1) by simp
    have "2 ^ nat b \<le> n"
      using IH(2) pw by linarith
    moreover have "n < 2 * 2 ^ nat b"
      using IH(3) by linarith
    then have "n < 2 ^ nat (1 + b)"
      by (simp only: up power_Suc)
    ultimately show ?thesis
      using IH(1) by (simp add: bl)
  qed
qed

lemma ilog2_lower:
  assumes "0 < a"
  shows "pow2 (ilog2 a) \<le> a"
proof -
  obtain n d where q: "quotient_of a = (n, d)"
    by (cases "quotient_of a")
  then have a: "a = of_int n / of_int d" and d: "0 < d"
    by (simp_all add: quotient_of_div quotient_of_denom_pos)
  with assms have n: "0 < n"
    by (simp add: zero_less_divide_iff)
  define e0 where "e0 = bit_length n - bit_length d"
  have il: "ilog2 a = (if pow2 e0 \<le> a then e0 else e0 - 1)"
    by (simp add: ilog2_def q e0_def Let_def)
  show ?thesis
  proof (cases "pow2 e0 \<le> a")
    case True
    with il show ?thesis
      by simp
  next
    case False
    note bn = bit_length_bounds [OF n] and bd = bit_length_bounds [OF d]
    have "pow2 (e0 - 1) = pow2 (bit_length n - 1) / pow2 (bit_length d)"
      by (simp add: e0_def pow2_diff [symmetric] algebra_simps)
    also have "\<dots> = of_int (2 ^ nat (bit_length n - 1)) / of_int (2 ^ nat (bit_length d))"
      using bn bd by (simp add: pow2_nonneg_int)
    also have "\<dots> \<le> of_int n / of_int (2 ^ nat (bit_length d))"
      using bn by (intro divide_right_mono) (simp_all flip: of_int_power)
    also have "\<dots> \<le> of_int n / of_int d"
    proof (rule divide_left_mono)
      show "(of_int d :: rat) \<le> of_int (2 ^ nat (bit_length d))"
        using bd by (simp only: of_int_le_iff) simp
      show "(0::rat) \<le> of_int n"
        using n by simp
      show "(0::rat) < of_int (2 ^ nat (bit_length d)) * of_int d"
        using d by simp
    qed
    finally show ?thesis
      using False il a by simp
  qed
qed

lemma round_half_even_ge_floor: "\<lfloor>m\<rfloor> \<le> round_half_even m"
  by (simp add: round_half_even_def Let_def)

lemma round_half_even_pos: "1 \<le> m \<Longrightarrow> 1 \<le> round_half_even m"
proof -
  assume "1 \<le> m"
  then have "1 \<le> \<lfloor>m\<rfloor>"
    by simp
  with round_half_even_ge_floor [of m] show ?thesis
    by linarith
qed

lemma to_double_cases:
  assumes "q \<noteq> 0"
  shows "\<exists>m p. - 1074 \<le> p \<and> 0 \<le> m \<and> (pow2 (- 1074) \<le> \<bar>q\<bar> \<longrightarrow> 1 \<le> m)
    \<and> to_double q =
           (if pow2 1024 \<le> of_int m * pow2 p then (if q < 0 then NInf else PInf)
            else Num (if q < 0 then - (of_int m * pow2 p) else of_int m * pow2 p))"
proof -
  define a where "a = \<bar>q\<bar>"
  define e where "e = ilog2 a"
  define p where "p = max e (- 1022) - 52"
  define m where "m = round_half_even (a / pow2 p)"
  have a: "0 < a"
    using assms by (simp add: a_def)
  have p: "- 1074 \<le> p"
    by (simp add: p_def)
  have ratio: "0 \<le> a / pow2 p"
    using a pow2_pos [of p] by simp
  then have "0 \<le> \<lfloor>a / pow2 p\<rfloor>"
    by simp
  with round_half_even_ge_floor [of "a / pow2 p"] have m: "0 \<le> m"
    unfolding m_def by linarith
  have big: "1 \<le> m" if tiny: "pow2 (- 1074) \<le> a"
  proof -
    have "1 \<le> a / pow2 p"
    proof (cases "- 1022 \<le> e")
      case True
      then have pe: "p = e - 52"
        by (simp add: p_def)
      have "pow2 e / pow2 p \<le> a / pow2 p"
        using ilog2_lower [OF a] pow2_pos [of p] by (intro divide_right_mono) (simp_all add: e_def)
      moreover have "pow2 e / pow2 p = pow2 52"
        by (simp add: pe pow2_diff [symmetric])
      moreover have "(1::rat) \<le> pow2 52"
        by (simp add: pow2_def)
      ultimately show ?thesis
        by simp
    next
      case False
      then have "p = - 1074"
        by (simp add: p_def)
      with tiny pow2_pos [of "- 1074"] show ?thesis
        by simp
    qed
    then show ?thesis
      unfolding m_def by (rule round_half_even_pos)
  qed
  have "to_double q =
           (if pow2 1024 \<le> of_int m * pow2 p then (if q < 0 then NInf else PInf)
            else Num (if q < 0 then - (of_int m * pow2 p) else of_int m * pow2 p))"
    using assms by (simp add: to_double_def Let_def a_def e_def p_def m_def)
  with p m big show ?thesis
    unfolding a_def by blast
qed

lemma on_grid_product:
  assumes "- 1074 \<le> p"
  shows "on_grid (of_int m * pow2 p)" and "on_grid (- (of_int m * pow2 p))"
proof -
  have "pow2 p = pow2 (p + 1074) * pow2 (- 1074)"
    by (simp add: pow2_add [symmetric])
  also have "pow2 (p + 1074) = of_int (2 ^ nat (p + 1074))"
    using assms by (simp add: pow2_nonneg_int)
  finally have eq: "of_int m * pow2 p = of_int (m * 2 ^ nat (p + 1074)) * pow2 (- 1074)"
    by simp
  then show "on_grid (of_int m * pow2 p)"
    unfolding on_grid_def by blast
  from eq have "- (of_int m * pow2 p) = of_int (- (m * 2 ^ nat (p + 1074))) * pow2 (- 1074)"
    by simp
  then show "on_grid (- (of_int m * pow2 p))"
    unfolding on_grid_def by blast
qed

lemma on_grid_zero: "on_grid 0"
  unfolding on_grid_def by (rule exI [of _ 0]) simp

lemma to_double_grid: "to_double q = Num r \<Longrightarrow> on_grid r"
proof (cases "q = 0")
  case True
  assume "to_double q = Num r"
  with True show ?thesis
    by (simp add: to_double_def on_grid_zero)
next
  case False
  assume r: "to_double q = Num r"
  from to_double_cases [OF False] obtain m p where p: "- 1074 \<le> p"
    and td: "to_double q =
           (if pow2 1024 \<le> of_int m * pow2 p then (if q < 0 then NInf else PInf)
            else Num (if q < 0 then - (of_int m * pow2 p) else of_int m * pow2 p))"
    by blast
  from r td have "r = of_int m * pow2 p \<or> r = - (of_int m * pow2 p)"
    by (auto split: if_splits)
  with on_grid_product [OF p, of m] show ?thesis
    by auto
qed

lemma to_double_sign:
  assumes "q = 0 \<or> pow2 (- 1074) \<le> \<bar>q\<bar>"
  shows "js_lt (Num 0) (to_double q) \<longleftrightarrow> 0 < q"
proof (cases "q = 0")
  case True
  then show ?thesis
    by (simp add: to_double_def)
next
  case False
  with assms have tiny: "pow2 (- 1074) \<le> \<bar>q\<bar>"
    by simp
  from to_double_cases [OF False] obtain m p
    where m: "pow2 (- 1074) \<le> \<bar>q\<bar> \<longrightarrow> 1 \<le> m"
    and td: "to_double q =
           (if pow2 1024 \<le> of_int m * pow2 p then (if q < 0 then NInf else PInf)
            else Num (if q < 0 then - (of_int m * pow2 p) else of_int m * pow2 p))"
    by blast
  from m tiny have "(0::rat) < of_int m"
    by simp
  then have v: "0 < of_int m * pow2 p"
    using pow2_pos [of p] by (rule mult_pos_pos)
  show ?thesis
    using False v by (auto simp: td)
qed

lemma grid_difference_sign:
  assumes "on_grid a" and "on_grid b"
  shows "js_lt (Num 0) (to_double (a - b)) \<longleftrightarrow> b < a"
proof -
  from assms obtain k l :: int where a: "a = of_int k * pow2 (- 1074)"
    and b: "b = of_int l * pow2 (- 1074)"
    unfolding on_grid_def by blast
  have diff: "a - b = of_int (k - l) * pow2 (- 1074)"
    by (simp add: a b algebra_simps)
  have "a - b = 0 \<or> pow2 (- 1074) \<le> \<bar>a - b\<bar>"
  proof (cases "k = l")
    case True
    then show ?thesis
      by (simp add: a b)
  next
    case False
    then have "1 \<le> \<bar>k - l\<bar>"
      by simp
    then have "(1::rat) \<le> \<bar>of_int (k - l)\<bar>"
      by (simp only: of_int_abs [symmetric] of_int_1_le_iff)
    then have "1 * pow2 (- 1074) \<le> \<bar>of_int (k - l)\<bar> * pow2 (- 1074)"
      using pow2_pos [of "- 1074"] by (intro mult_right_mono) simp_all
    then show ?thesis
      using pow2_pos [of "- 1074"] by (simp add: diff abs_mult)
  qed
  from to_double_sign [OF this] show ?thesis
    by simp
qed

subsection \<open>Numbers read from strings\<close>

lemma proper_to_double: "proper (to_double q)"
proof (cases "to_double q")
  case (Num r)
  then show ?thesis
    by (simp add: proper_def to_double_grid)
qed (simp_all add: proper_def to_double_not_NaN)

lemma on_grid_minus: "on_grid q \<Longrightarrow> on_grid (- q)"
proof -
  assume "on_grid q"
  then obtain k :: int where "q = of_int k * pow2 (- 1074)"
    unfolding on_grid_def by blast
  then have "- q = of_int (- k) * pow2 (- 1074)"
    by simp
  then show ?thesis
    unfolding on_grid_def by blast
qed

lemma proper_js_neg: "proper x \<Longrightarrow> proper (js_neg x)"
  by (cases x) (simp_all add: proper_def js_neg_def on_grid_minus)

lemma unsigned_decimal_proper:
  assumes "unsigned_decimal u = Some vr"
  shows "proper (fst vr)"
proof (cases "take 8 u = ''Infinity''")
  case True
  with assms have "fst vr = PInf"
    by (auto simp: unsigned_decimal_def)
  then show ?thesis
    by (simp add: proper_def)
next
  case False
  with assms obtain q where "fst vr = to_double q"
    by (auto simp: unsigned_decimal_def Let_def split: if_splits)
  then show ?thesis
    by (simp add: proper_to_double)
qed

lemma str_decimal_literal_proper: "str_decimal_literal t = Some vr \<Longrightarrow> proper (fst vr)"
  by (cases t)
    (auto simp: str_decimal_literal_def dest!: unsigned_decimal_proper intro: proper_js_neg
      split: if_splits)

lemma parseFloat_proper: "parseFloat s \<noteq> NaN \<Longrightarrow> proper (parseFloat s)"
  by (auto simp: parseFloat_def dest: str_decimal_literal_proper split: option.splits)

lemma js_sub_sign:
  assumes "proper x" and "proper y"
  shows "js_lt (Num 0) (js_sub y x) \<longleftrightarrow> js_lt x y"
proof (cases x)
  case xn: (Num a)
  show ?thesis
  proof (cases y)
    case (Num b)
    with xn assms have "on_grid a" "on_grid b"
      by (simp_all add: proper_def)
    from grid_difference_sign [OF this(2) this(1)] show ?thesis
      using xn Num by simp
  qed (use xn assms in \<open>simp_all add: proper_def\<close>)
qed (use assms in \<open>cases y; simp add: proper_def\<close>)+

lemma js_le_total:
  assumes "proper x" and "proper y"
  shows "js_le y x \<longleftrightarrow> \<not> js_lt x y"
  using assms by (cases x; cases y) (auto simp: proper_def js_le_def)

lemma js_le_trans:
  assumes "js_le x y" and "js_le y z"
  shows "js_le x z"
  using assms by (cases x; cases y; cases z) (auto simp: js_le_def)

lemma fromBaseUnits_digit_first:
  assumes "fromBaseUnits b d = Inr s"
  shows "s \<noteq> [] \<and> is_digit (hd s)"
proof -
  from assms have b: "all_digits b" and d: "0 \<le> d"
    by (auto simp: fromBaseUnits_def split: if_splits)
  show ?thesis
  proof (cases "d = 0")
    case True
    with assms b show ?thesis
      by (auto simp: fromBaseUnits_def all_digits_hd all_digits_def split: if_splits)
  next
    case False
    define padded where "padded = padStart b (d + 1)"
    define w where "w = slice padded 0 (int (length padded) - d)"
    define whole where "whole = (if w = [] then ''0'' else w)"
    have zero: "is_digit (CHR ''0'')"
      by (simp add: is_digit_def)
    have "list_all is_digit padded"
      using b zero by (auto simp: padded_def padStart_def all_digits_def list_all_iff)
    then have "list_all is_digit w"
      by (auto simp: w_def slice_def Let_def list_all_iff dest: in_set_takeD in_set_dropD)
    then have whole: "whole \<noteq> []" "is_digit (hd whole)"
      using zero by (cases w; simp add: whole_def)+
    from assms False b d have "s = whole \<or> (\<exists>t. s = whole @ t)"
      by (auto simp: fromBaseUnits_def Let_def padded_def w_def whole_def split: if_splits)
    with whole show ?thesis
      by auto
  qed
qed

lemma formatted_remaining_proper:
  assumes "formatCalculations calc d = Inr formatted"
  shows "proper (parseFloat (remaining formatted))"
proof -
  from assms obtain s where "fromBaseUnits (remaining calc) d = Inr s" "remaining formatted = s"
    by (auto simp: formatCalculations_def split: sum.splits)
  with fromBaseUnits_digit_first [of "remaining calc" d s] show ?thesis
    by (simp add: parseFloat_proper parseFloat_digit_first)
qed

subsection \<open>Sorting the claimable campaigns\<close>

lemma compare_precedes:
  assumes "proper (parseFloat (entryRemaining x))" and "proper (parseFloat (entryRemaining y))"
  shows "js_lt (Num 0) (compareClaimable x y) \<longleftrightarrow> \<not> precedes x y"
  using js_sub_sign [OF assms] js_le_total [OF assms]
  by (auto simp: compareClaimable_def precedes_def)

lemma precedes_total:
  assumes "proper (parseFloat (entryRemaining x))" and "proper (parseFloat (entryRemaining y))"
  shows "precedes x y \<or> precedes y x"
proof -
  have "js_le (parseFloat (entryRemaining y)) (parseFloat (entryRemaining x))
        \<or> js_le (parseFloat (entryRemaining x)) (parseFloat (entryRemaining y))"
    using js_le_total [OF assms] js_le_total [OF assms(2) assms(1)]
    by (cases "parseFloat (entryRemaining x)"; cases "parseFloat (entryRemaining y)") auto
  then show ?thesis
    by (auto simp: precedes_def)
qed

lemma precedes_trans: "precedes x y \<Longrightarrow> precedes y z \<Longrightarrow> precedes x z"
  by (auto simp: precedes_def dest: js_le_trans)

lemma mset_insert_by: "mset (insert_by cmp x ys) = add_mset x (mset ys)"
  by (induction ys) simp_all

lemma mset_sort_by: "mset (sort_by cmp xs) = mset xs"
  by (induction xs) (simp_all add: sort_by_def mset_insert_by)

lemma set_insert_by: "set (insert_by cmp x ys) = insert x (set ys)"
  using mset_insert_by [of cmp x ys, THEN arg_cong, of set_mset] by simp

lemma sorted_insert_by:
  assumes "\<forall>z \<in> set (x # ys). proper (parseFloat (entryRemaining z))"
    and "sorted_wrt precedes ys"
  shows "sorted_wrt precedes (insert_by compareClaimable x ys)"
  using assms
proof (induction ys)
  case Nil
  then show ?case by simp
next
  case (Cons y ys)
  have px: "proper (parseFloat (entryRemaining x))" and py: "proper (parseFloat (entryRemaining y))"
    using Cons.prems(1) by simp_all
  show ?case
  proof (cases "js_lt (Num 0) (compareClaimable x y)")
    case True
    then have "\<not> precedes x y"
      using compare_precedes [OF px py] by simp
    with precedes_total [OF px py] have yx: "precedes y x"
      by simp
    have "sorted_wrt precedes (insert_by compareClaimable x ys)"
      using Cons.prems by (intro Cons.IH) simp_all
    with True yx Cons.prems(2) show ?thesis
      by (auto simp: set_insert_by)
  next
    case False
    then have xy: "precedes x y"
      using compare_precedes [OF px py] by simp
    have "\<forall>z \<in> set ys. precedes x z"
      using xy Cons.prems(2) by (auto intro: precedes_trans)
    with False xy Cons.prems(2) show ?thesis
      by simp
  qed
qed

lemma sorted_sort_by:
  assumes "\<forall>z \<in> set xs. proper (parseFloat (entryRemaining z))"
  shows "sorted_wrt precedes (sort_by compareClaimable xs)"
  using assms
proof (induction xs)
  case Nil
  then show ?case by (simp add: sort_by_def)
next
  case (Cons x xs)
  then have tail: "sorted_wrt precedes (sort_by compareClaimable xs)"
    by simp
  have "set (sort_by compareClaimable xs) = set xs"
    using mset_sort_by [of compareClaimable xs, THEN arg_cong, of set_mset] by simp
  with Cons.prems have "\<forall>z \<in> set (x # sort_by compareClaimable xs).
      proper (parseFloat (entryRemaining z))"
    by simp
  from sorted_insert_by [OF this tail] show ?case
    by (simp add: sort_by_def)
qed

lemma claimable_loop_collects:
  assumes "\<forall>c \<in> set cs. calculateRewards env u chain (Campaign.campaignId c) \<noteq> None"
  shows "claimable_loop env u chain cs results =
           Some (results @ List.map_filter (reconciled env u chain) cs)"
  using assms
proof (induction cs arbitrary: results)
  case Nil
  then show ?case by (simp add: map_filter_simps)
next
  case (Cons c cs)
  then obtain r where r: "calculateRewards env u chain (Campaign.campaignId c) = Some r"
    by auto
  have IH: "\<And>results. claimable_loop env u chain cs results =
           Some (results @ List.map_filter (reconciled env u chain) cs)"
    using Cons.prems by (intro Cons.IH) simp
  show ?case
  proof (cases r)
    case (Inl e)
    then have "reconciled env u chain c = None"
      by (simp add: reconciled_def r)
    with Inl show ?thesis
      by (simp add: r IH map_filter_simps)
  next
    case (Inr x)
    show ?thesis
    proof (cases "formatCalculations (calculations x) (decimals (rewardToken c))")
      case (Inl e)
      with Inr have "reconciled env u chain c = None"
        by (simp add: reconciled_def r)
      with Inl Inr show ?thesis
        by (simp add: r IH map_filter_simps)
    next
      case inner: (Inr formatted)
      with Inr have "reconciled env u chain c =
          Some \<lparr>entryCampaign = c, entryCanClaim = canClaim (calculations x),
                entryRemaining = remaining formatted, entryCalculations = calculations x\<rparr>"
        by (simp add: reconciled_def r)
      with inner Inr show ?thesis
        by (simp add: r IH map_filter_simps)
    qed
  qed
qed

lemma reconciled_proper:
  "reconciled env u chain c = Some e \<Longrightarrow> proper (parseFloat (entryRemaining e))"
  by (auto simp: reconciled_def formatted_remaining_proper split: option.splits sum.splits)

lemma reconciled_fields:
  assumes "reconciled env u chain c = Some e"
  shows "entryCampaign e = c"
    and "\<exists>r. calculateRewards env u chain (Campaign.campaignId c) = Some (Inr r)
           \<and> entryCalculations e = calculations r
           \<and> entryCanClaim e = canClaim (calculations r)"
  using assms by (auto simp: reconciled_def split: option.splits sum.splits)

lemma calculateRewards_reconciles:
  assumes "calculateRewards env u chain cid = Some (Inr r)"
  shows "performCalculations (rewardProofs r) (rewardClaims r) cid (rewardTokenDecimals r) =
           Inr (calculations r)"
  using assms by (auto simp: calculateRewards_def split: sum.splits option.splits)

lemma map_filter_set: "set (List.map_filter f xs) = {y. \<exists>x \<in> set xs. f x = Some y}"
  by (induction xs) (auto simp: map_filter_simps split: option.splits)

lemma precedes_claimable_first: "precedes a b \<Longrightarrow> entryCanClaim b \<Longrightarrow> entryCanClaim a"
  by (auto simp: precedes_def)

lemma precedes_exact:
  assumes "precedes a b" and "entryCanClaim a = entryCanClaim b"
    and "read_exactly (entryRemaining a)" and "read_exactly (entryRemaining b)"
  shows "decimal_value (entryRemaining b) \<le> decimal_value (entryRemaining a)"
  using assms by (auto simp: precedes_def read_exactly_def js_le_def)

text \<open>
  C8, as amended. Suppose the reconciliation of every campaign of the list returns or
  raises. Then \<^verbatim>\<open>getUserClaimableCampaigns\<close> returns a list that holds, as often as they
  occur in the input, exactly the campaigns whose reconciliation and formatting did not
  raise; a campaign where one of them raises is skipped. Each entry carries the
  calculations that \<^verbatim>\<open>performCalculations\<close> gives on the records fetched for its campaign.
  Claimable entries stand before the others. \<^verbatim>\<open>parseFloat\<close> reads the remaining amount of
  every entry as a number, and among entries of equal claimability that number does not
  increase along the list. So of any two entries of equal claimability whose remaining
  amounts \<^verbatim>\<open>parseFloat\<close> reads exactly, the later one has the smaller or the same remaining
  amount; equal amounts may follow each other.
\<close>

theorem claimable_campaigns_sorted:
  "(\<forall>c \<in> set campaigns. calculateRewards env u chain (Campaign.campaignId c) \<noteq> None) \<longrightarrow>
     (\<exists>res. getUserClaimableCampaigns env u chain campaigns = Some (Inr res)
        \<and> mset res = mset (List.map_filter (reconciled env u chain) campaigns)
        \<and> (\<forall>c \<in> set campaigns.
              c \<in> entryCampaign ` set res \<longleftrightarrow> reconciled env u chain c \<noteq> None)
        \<and> (\<forall>e \<in> set res.
              \<exists>r. calculateRewards env u chain (Campaign.campaignId (entryCampaign e)) = Some (Inr r)
                \<and> entryCalculations e = calculations r
                \<and> performCalculations (rewardProofs r) (rewardClaims r)
                      (Campaign.campaignId (entryCampaign e)) (rewardTokenDecimals r) =
                    Inr (calculations r))
        \<and> (\<forall>i j. i < j \<and> j < length res \<and> entryCanClaim (res ! j) \<longrightarrow> entryCanClaim (res ! i))
        \<and> (\<forall>e \<in> set res. proper (parseFloat (entryRemaining e)))
        \<and> (\<forall>i j. i < j \<and> j < length res \<and> entryCanClaim (res ! i) = entryCanClaim (res ! j) \<longrightarrow>
              js_le (parseFloat (entryRemaining (res ! j))) (parseFloat (entryRemaining (res ! i))))
        \<and> (\<forall>i j. i < j \<and> j < length res \<and> entryCanClaim (res ! i) = entryCanClaim (res ! j)
                 \<and> read_exactly (entryRemaining (res ! i))
                 \<and> read_exactly (entryRemaining (res ! j)) \<longrightarrow>
              decimal_value (entryRemaining (res ! j))
              \<le> decimal_value (entryRemaining (res ! i))))"
proof
  assume returns: "\<forall>c \<in> set campaigns. calculateRewards env u chain (Campaign.campaignId c) \<noteq> None"
  define raw where "raw = List.map_filter (reconciled env u chain) campaigns"
  define res where "res = sort_by compareClaimable raw"
  have loop: "claimable_loop env u chain campaigns [] = Some raw"
    using claimable_loop_collects [OF returns, of "[]"] by (simp add: raw_def)
  have result: "getUserClaimableCampaigns env u chain campaigns = Some (Inr res)"
    by (simp add: getUserClaimableCampaigns_def loop res_def)
  have perm: "mset res = mset raw"
    by (simp add: res_def mset_sort_by)
  then have "set_mset (mset res) = set_mset (mset raw)"
    by simp
  then have members: "set res = {e. \<exists>c \<in> set campaigns. reconciled env u chain c = Some e}"
    by (simp add: raw_def map_filter_set)
  have present: "\<forall>c \<in> set campaigns.
      c \<in> entryCampaign ` set res \<longleftrightarrow> reconciled env u chain c \<noteq> None"
  proof
    fix c
    assume c: "c \<in> set campaigns"
    show "c \<in> entryCampaign ` set res \<longleftrightarrow> reconciled env u chain c \<noteq> None"
    proof
      assume "c \<in> entryCampaign ` set res"
      then obtain e c' where "reconciled env u chain c' = Some e" "entryCampaign e = c"
        using members by auto
      with reconciled_fields(1) [of env u chain c' e] show "reconciled env u chain c \<noteq> None"
        by auto
    next
      assume "reconciled env u chain c \<noteq> None"
      then obtain e where e: "reconciled env u chain c = Some e"
        by auto
      with c have "e \<in> set res"
        using members by auto
      with reconciled_fields(1) [OF e] show "c \<in> entryCampaign ` set res"
        by force
    qed
  qed
  have carried: "\<forall>e \<in> set res.
      \<exists>r. calculateRewards env u chain (Campaign.campaignId (entryCampaign e)) = Some (Inr r)
        \<and> entryCalculations e = calculations r
        \<and> performCalculations (rewardProofs r) (rewardClaims r)
              (Campaign.campaignId (entryCampaign e)) (rewardTokenDecimals r) =
            Inr (calculations r)"
  proof
    fix e
    assume "e \<in> set res"
    then obtain c where rec: "reconciled env u chain c = Some e"
      using members by auto
    from reconciled_fields [OF rec] obtain r
      where r: "calculateRewards env u chain (Campaign.campaignId c) = Some (Inr r)"
        and "entryCalculations e = calculations r" and "entryCampaign e = c"
      by auto
    with calculateRewards_reconciles [OF r]
    show "\<exists>r. calculateRewards env u chain (Campaign.campaignId (entryCampaign e)) = Some (Inr r)
        \<and> entryCalculations e = calculations r
        \<and> performCalculations (rewardProofs r) (rewardClaims r)
              (Campaign.campaignId (entryCampaign e)) (rewardTokenDecimals r) =
            Inr (calculations r)"
      by auto
  qed
  have raw_proper: "\<forall>e \<in> set raw. proper (parseFloat (entryRemaining e))"
    by (auto simp: raw_def map_filter_set dest: reconciled_proper)
  then have "sorted_wrt precedes res"
    unfolding res_def by (rule sorted_sort_by)
  then have ordered: "\<And>i j. i < j \<Longrightarrow> j < length res \<Longrightarrow> precedes (res ! i) (res ! j)"
    by (simp add: sorted_wrt_iff_nth_less)
  from perm have "set_mset (mset res) = set_mset (mset raw)"
    by simp
  with raw_proper have numbers: "\<forall>e \<in> set res. proper (parseFloat (entryRemaining e))"
    by simp
  have first: "\<forall>i j. i < j \<and> j < length res \<and> entryCanClaim (res ! j) \<longrightarrow> entryCanClaim (res ! i)"
    using ordered precedes_claimable_first by blast
  have descending: "\<forall>i j. i < j \<and> j < length res
        \<and> entryCanClaim (res ! i) = entryCanClaim (res ! j) \<longrightarrow>
      js_le (parseFloat (entryRemaining (res ! j))) (parseFloat (entryRemaining (res ! i)))"
  proof (intro impI allI)
    fix i j
    assume ij: "i < j \<and> j < length res \<and> entryCanClaim (res ! i) = entryCanClaim (res ! j)"
    with ordered [of i j] have "precedes (res ! i) (res ! j)"
      by simp
    with ij show "js_le (parseFloat (entryRemaining (res ! j)))
        (parseFloat (entryRemaining (res ! i)))"
      by (auto simp: precedes_def)
  qed
  have exact: "\<forall>i j. i < j \<and> j < length res
        \<and> entryCanClaim (res ! i) = entryCanClaim (res ! j)
        \<and> read_exactly (entryRemaining (res ! i))
        \<and> read_exactly (entryRemaining (res ! j)) \<longrightarrow>
      decimal_value (entryRemaining (res ! j)) \<le> decimal_value (entryRemaining (res ! i))"
  proof (intro impI allI)
    fix i j
    assume ij: "i < j \<and> j < length res
        \<and> entryCanClaim (res ! i) = entryCanClaim (res ! j)
        \<and> read_exactly (entryRemaining (res ! i))
        \<and> read_exactly (entryRemaining (res ! j))"
    with ordered [of i j]
    show "decimal_value (entryRemaining (res ! j)) \<le> decimal_value (entryRemaining (res ! i))"
      by (intro precedes_exact) simp_all
  qed
  from result perm present carried first numbers descending exact
  show "\<exists>res. getUserClaimableCampaigns env u chain campaigns = Some (Inr res)
        \<and> mset res = mset (List.map_filter (reconciled env u chain) campaigns)
        \<and> (\<forall>c \<in> set campaigns.
              c \<in> entryCampaign ` set res \<longleftrightarrow> reconciled env u chain c \<noteq> None)
        \<and> (\<forall>e \<in> set res.
              \<exists>r. calculateRewards env u chain (Campaign.campaignId (entryCampaign e)) = Some (Inr r)
                \<and> entryCalculations e = calculations r
                \<and> performCalculations (rewardProofs r) (rewardClaims r)
                      (Campaign.campaignId (entryCampaign e)) (rewardTokenDecimals r) =
                    Inr (calculations r))
        \<and> (\<forall>i j. i < j \<and> j < length res \<and> entryCanClaim (res ! j) \<longrightarrow> entryCanClaim (res ! i))
        \<and> (\<forall>e \<in> set res. proper (parseFloat (entryRemaining e)))
        \<and> (\<forall>i j. i < j \<and> j < length res \<and> entryCanClaim (res ! i) = entryCanClaim (res ! j) \<longrightarrow>
              js_le (parseFloat (entryRemaining (res ! j))) (parseFloat (entryRemaining (res ! i))))
        \<and> (\<forall>i j. i < j \<and> j < length res \<and> entryCanClaim (res ! i) = entryCanClaim (res ! j)
                 \<and> read_exactly (entryRemaining (res ! i))
                 \<and> read_exactly (entryRemaining (res ! j)) \<longrightarrow>
              decimal_value (entryRemaining (res ! j))
              \<le> decimal_value (entryRemaining (res ! i)))"
    unfolding raw_def by blast
qed

theorem claimable_campaigns_sorted_witness:
  "getUserClaimableCampaigns example_services example_user 1
     [example_campaign 1, example_campaign 2, example_campaign 3] =
     Some (Inr [example_entry 3 ''7'', example_entry 1 ''5''])
   \<and> reconciled example_services example_user 1 (example_campaign 2) = None
   \<and> decimal_value ''5'' \<le> decimal_value ''7''"
proof -
  let ?cs = "[example_campaign 1, example_campaign 2, example_campaign 3]"
  let ?res = "[example_entry 3 ''7'', example_entry 1 ''5'']"
  have run: "getUserClaimableCampaigns example_services example_user 1 ?cs = Some (Inr ?res)"
    by code_simp
  have "calculateRewards example_services example_user 1 1 \<noteq> None"
    "calculateRewards example_services example_user 1 2 \<noteq> None"
    "calculateRewards example_services example_user 1 3 \<noteq> None"
    by code_simp+
  then have "\<forall>c \<in> set ?cs. calculateRewards example_services example_user 1 (Campaign.campaignId c) \<noteq> None"
    by (simp add: example_campaign_def)
  with claimable_campaigns_sorted [of ?cs example_services example_user 1] run
  have present: "\<forall>c \<in> set ?cs.
      c \<in> entryCampaign ` set ?res \<longleftrightarrow> reconciled example_services example_user 1 c \<noteq> None"
    and exact: "\<forall>i j. i < j \<and> j < length ?res
        \<and> entryCanClaim (?res ! i) = entryCanClaim (?res ! j)
        \<and> read_exactly (entryRemaining (?res ! i))
        \<and> read_exactly (entryRemaining (?res ! j)) \<longrightarrow>
      decimal_value (entryRemaining (?res ! j)) \<le> decimal_value (entryRemaining (?res ! i))"
    by auto
  have "example_campaign 2 \<notin> entryCampaign ` set ?res"
    by (simp add: example_entry_def example_campaign_def)
  with present have skipped: "reconciled example_services example_user 1 (example_campaign 2) = None"
    by simp
  have reads: "read_exactly ''7''" "read_exactly ''5''"
    by code_simp+
  from exact have "(0::nat) < 1 \<and> 1 < length ?res
      \<and> entryCanClaim (?res ! 0) = entryCanClaim (?res ! 1)
      \<and> read_exactly (entryRemaining (?res ! 0))
      \<and> read_exactly (entryRemaining (?res ! 1)) \<longrightarrow>
         decimal_value (entryRemaining (?res ! 1)) \<le> decimal_value (entryRemaining (?res ! 0))"
    by blast
  with reads have "decimal_value ''5'' \<le> decimal_value ''7''"
    by (simp add: example_entry_def)
  with run skipped show ?thesis
    by blast
qed

text \<open>
  C8 as it stands asks for a strictly descending order of the remaining amounts of the
  claimable campaigns. Two claimable campaigns with the same remaining amount are both in
  the result, next to each other.
\<close>

theorem claimable_ties_counterexample:
  "getUserClaimableCampaigns example_services example_user 1
     [example_campaign 1, example_campaign 4] =
     Some (Inr [example_entry 1 ''5'', example_entry 4 ''5''])
   \<and> entryCanClaim (example_entry 1 ''5'') \<and> entryCanClaim (example_entry 4 ''5'')
   \<and> \<not> decimal_value (entryRemaining (example_entry 4 ''5''))
         < decimal_value (entryRemaining (example_entry 1 ''5''))"
proof -
  have "getUserClaimableCampaigns example_services example_user 1
     [example_campaign 1, example_campaign 4] =
     Some (Inr [example_entry 1 ''5'', example_entry 4 ''5''])"
    by code_simp
  then show ?thesis
    by (simp add: example_entry_def)
qed

text \<open>
  The comparison reads the remaining amounts as floating-point numbers: two amounts that
  differ can compare equal, and then keep the order of the input.
\<close>

lemma parseFloat_collision:
  "parseFloat ''9007199254740993'' = parseFloat ''9007199254740992''
   \<and> \<not> read_exactly ''9007199254740993''"
  by code_simp

end
